theory Spec2Isabelle
  imports Main "HOL-Library.Multiset"
begin

section \<open>Recipe segmentation: the data-preparation notebook\<close>

text \<open>
  The notebook \<^verbatim>\<open>01_data_preparation.ipynb\<close> turns the pages of a cookbook and its
  table of contents into one text per recipe (cells 5 to 7) and cuts every recipe text
  into bounded chunks (cell 11). The data frames are modelled as lists of rows, in row
  order; a missing value (NaN) of a column is \<open>None\<close>.
\<close>

subsection \<open>Rows of the data frames\<close>

text \<open>\<^verbatim>\<open>book_df\<close>: one row per page, columns \<^verbatim>\<open>page_number\<close> and \<^verbatim>\<open>text\<close>.\<close>

record page_row =
  page_number :: int
  page_text :: string

text \<open>\<^verbatim>\<open>doc_toc\<close>: columns \<^verbatim>\<open>level\<close>, \<^verbatim>\<open>title\<close> and \<^verbatim>\<open>page_number\<close> (here \<open>toc_page\<close>).\<close>

record toc_row =
  level :: int
  title :: string
  toc_page :: int

text \<open>
  A row of \<^verbatim>\<open>merged\<close>: the columns of the left frame, then \<^verbatim>\<open>level\<close> and
  \<^verbatim>\<open>title\<close> of the matched row of the right frame, NaN when no row matches.
\<close>

record merged_row =
  m_page_number :: int
  m_text :: string
  m_level :: "int option"
  m_title :: "string option"

text \<open>A row of \<^verbatim>\<open>recipes_combined\<close>: columns \<^verbatim>\<open>recipe\<close> and \<^verbatim>\<open>description\<close>.\<close>

record recipe_row =
  recipe :: string
  description :: string

datatype error = LeftKeysNotSorted | RightKeysNotSorted | IndexError

subsection \<open>Cells 5 and 6: the recipe entries and the recipe pages\<close>

text \<open>\<^verbatim>\<open>doc_toc[doc_toc['level'] == 2].reset_index(drop=True)\<close>\<close>

definition recipes_toc :: "toc_row list \<Rightarrow> toc_row list" where
  "recipes_toc doc_toc = filter (\<lambda>e. level e = 2) doc_toc"

text \<open>\<^verbatim>\<open>Series.between(left, right)\<close>, both ends inclusive.\<close>

definition between :: "int \<Rightarrow> int \<Rightarrow> int \<Rightarrow> bool" where
  "between left right x \<longleftrightarrow> left \<le> x \<and> x \<le> right"

text \<open>\<^verbatim>\<open>book_df[book_df['page_number'].between(23, 449)].reset_index(drop=True)\<close>\<close>

definition recipes_df :: "page_row list \<Rightarrow> page_row list" where
  "recipes_df book_df = filter (\<lambda>p. between 23 449 (page_number p)) book_df"

subsection \<open>Cell 7: sorting, the as-of merge and the grouping\<close>

text \<open>
  \<^verbatim>\<open>sort_values('page_number')\<close> runs with the default \<^verbatim>\<open>kind='quicksort'\<close>, which
  pandas documents as not stable: the result is a rearrangement of the rows in ascending
  key order, and the order of rows with equal keys is left open. The sort is therefore
  a parameter of the model, and \<open>sorts_by\<close> is all that is known of it.
\<close>

definition sorts_by :: "('a \<Rightarrow> int) \<Rightarrow> ('a list \<Rightarrow> 'a list) \<Rightarrow> bool" where
  "sorts_by key srt \<longleftrightarrow> (\<forall>xs. mset (srt xs) = mset xs \<and> sorted (map key (srt xs)))"

text \<open>
  \<^verbatim>\<open>pd.merge_asof(left, right, on='page_number', direction='backward')\<close>: for each row
  of the left frame, the last row of the right frame whose key is less than or equal to
  the left key; the left row is kept with NaN when there is none. Both key columns must
  be sorted, or the call raises. The key columns are taken to be integer columns, as
  they are in a frame built from at least one row; the properties below are stated for
  a book and a table of contents that are not empty.
\<close>

definition asof_backward :: "toc_row list \<Rightarrow> int \<Rightarrow> toc_row option" where
  "asof_backward right k =
     (case filter (\<lambda>e. toc_page e \<le> k) right of
        [] \<Rightarrow> None
      | e # es \<Rightarrow> Some (last (e # es)))"

definition join_row :: "page_row \<Rightarrow> toc_row option \<Rightarrow> merged_row" where
  "join_row p m =
     \<lparr>m_page_number = page_number p, m_text = page_text p,
      m_level = map_option level m, m_title = map_option title m\<rparr>"

definition merge_asof :: "page_row list \<Rightarrow> toc_row list \<Rightarrow> error + merged_row list" where
  "merge_asof left right =
     (if \<not> sorted (map page_number left) then Inl LeftKeysNotSorted
      else if \<not> sorted (map toc_page right) then Inl RightKeysNotSorted
      else Inr (map (\<lambda>p. join_row p (asof_backward right (page_number p))) left))"

text \<open>
  \<^verbatim>\<open>groupby('title', sort=False)\<close>: the group keys in the order of their first
  appearance; rows whose key is NaN belong to no group (\<^verbatim>\<open>dropna=True\<close> is the
  default). Each group holds its rows in row order.
\<close>

fun first_seen :: "'a list \<Rightarrow> 'a list" where
  "first_seen [] = []"
| "first_seen (x # xs) = x # filter (\<lambda>y. y \<noteq> x) (first_seen xs)"

definition groupby_title :: "merged_row list \<Rightarrow> (string \<times> merged_row list) list" where
  "groupby_title rows =
     map (\<lambda>t. (t, filter (\<lambda>r. m_title r = Some t) rows))
       (first_seen (List.map_filter m_title rows))"

text \<open>\<^verbatim>\<open>sep.join(texts)\<close>\<close>

fun str_join :: "string \<Rightarrow> string list \<Rightarrow> string" where
  "str_join sep [] = []"
| "str_join sep [x] = x"
| "str_join sep (x # y # ys) = x @ sep @ str_join sep (y # ys)"

text \<open>
  The two sorts and the merge. \<open>srt_df\<close> and \<open>srt_toc\<close> stand for
  \<^verbatim>\<open>sort_values('page_number')\<close> on the two frames.
\<close>

definition merged ::
  "(page_row list \<Rightarrow> page_row list) \<Rightarrow> (toc_row list \<Rightarrow> toc_row list) \<Rightarrow>
   page_row list \<Rightarrow> toc_row list \<Rightarrow> error + merged_row list" where
  "merged srt_df srt_toc rdf rtoc = merge_asof (srt_df rdf) (srt_toc rtoc)"

text \<open>
  \<^verbatim>\<open>merged.groupby('title', sort=False)['text'].apply(lambda texts: ' '.join(texts))\<close>,
  then the columns renamed to \<^verbatim>\<open>recipe\<close> and \<^verbatim>\<open>description\<close>.
\<close>

definition combine :: "string \<times> merged_row list \<Rightarrow> recipe_row" where
  "combine g = \<lparr>recipe = fst g, description = str_join '' '' (map m_text (snd g))\<rparr>"

definition recipes_combined ::
  "(page_row list \<Rightarrow> page_row list) \<Rightarrow> (toc_row list \<Rightarrow> toc_row list) \<Rightarrow>
   page_row list \<Rightarrow> toc_row list \<Rightarrow> error + recipe_row list" where
  "recipes_combined srt_df srt_toc rdf rtoc =
     (case merged srt_df srt_toc rdf rtoc of
        Inl e \<Rightarrow> Inl e
      | Inr rows \<Rightarrow> Inr (map combine (groupby_title rows)))"

text \<open>Cells 5 to 7 in sequence, from the two extracted frames.\<close>

definition grouped_pages ::
  "(page_row list \<Rightarrow> page_row list) \<Rightarrow> (toc_row list \<Rightarrow> toc_row list) \<Rightarrow>
   page_row list \<Rightarrow> toc_row list \<Rightarrow> error + (string \<times> merged_row list) list" where
  "grouped_pages srt_df srt_toc book_df doc_toc =
     (case merged srt_df srt_toc (recipes_df book_df) (recipes_toc doc_toc) of
        Inl e \<Rightarrow> Inl e
      | Inr rows \<Rightarrow> Inr (groupby_title rows))"

definition recipes_of_book ::
  "(page_row list \<Rightarrow> page_row list) \<Rightarrow> (toc_row list \<Rightarrow> toc_row list) \<Rightarrow>
   page_row list \<Rightarrow> toc_row list \<Rightarrow> error + recipe_row list" where
  "recipes_of_book srt_df srt_toc book_df doc_toc =
     recipes_combined srt_df srt_toc (recipes_df book_df) (recipes_toc doc_toc)"

section \<open>Chunking: the recursive character splitter of cell 11\<close>

text \<open>
  Cell 11 builds \<^verbatim>\<open>RecursiveCharacterTextSplitter(chunk_size=1000, chunk_overlap=100)\<close>
  and calls \<^verbatim>\<open>split_text\<close> on every description. The class is the one of the
  \<^verbatim>\<open>langchain_text_splitters\<close> package; its methods are modelled below as the
  package defines them, with the defaults the notebook leaves in place:
  \<^verbatim>\<open>separators = ["\n\n", "\n", " ", ""]\<close>, \<^verbatim>\<open>keep_separator = True\<close>,
  \<^verbatim>\<open>is_separator_regex = False\<close>, \<^verbatim>\<open>length_function = len\<close> and
  \<^verbatim>\<open>strip_whitespace = True\<close>. A Python string is a list of characters, and
  \<^verbatim>\<open>len\<close> is the length of the list; the characters are those of the type
  \<open>char\<close>, the code points below 256.
\<close>

subsection \<open>Strings\<close>

text \<open>
  The characters \<^verbatim>\<open>str.strip()\<close> removes: tab, line feed, vertical tab, form feed,
  carriage return, the four separators \<^verbatim>\<open>\x1c\<close> to \<^verbatim>\<open>\x1f\<close>, space,
  \<^verbatim>\<open>\x85\<close> and \<^verbatim>\<open>\xa0\<close>.
\<close>

definition isspace :: "char \<Rightarrow> bool" where
  "isspace c \<longleftrightarrow>
     c \<in> set [CHR 0x09, CHR 0x0A, CHR 0x0B, CHR 0x0C, CHR 0x0D, CHR 0x1C, CHR 0x1D, CHR 0x1E,
              CHR 0x1F, CHR 0x20, CHR 0x85, CHR 0xA0]"

definition strip :: "string \<Rightarrow> string" where
  "strip s = rev (dropWhile isspace (rev (dropWhile isspace s)))"

text \<open>
  \<^verbatim>\<open>re.search(re.escape(sep), text)\<close> for a literal \<open>sep\<close>: does \<open>sep\<close> occur
  in \<open>text\<close>?
\<close>

fun re_search :: "string \<Rightarrow> string \<Rightarrow> bool" where
  "re_search sep [] = (sep = [])"
| "re_search sep (c # cs) = (take (length sep) (c # cs) = sep \<or> re_search sep cs)"

text \<open>
  \<^verbatim>\<open>re.split\<close> on a literal, non-empty separator: the pieces between the occurrences
  of \<open>sep\<close>, found from left to right without overlap. There is always a first piece.
\<close>

function re_split :: "string \<Rightarrow> string \<Rightarrow> string list" where
  "re_split sep [] = [[]]"
| "re_split sep (c # cs) =
     (if sep \<noteq> [] \<and> take (length sep) (c # cs) = sep
      then [] # re_split sep (drop (length sep) (c # cs))
      else (case re_split sep cs of
              [] \<Rightarrow> [[c]]
            | p # ps \<Rightarrow> (c # p) # ps))"
  by pat_completeness auto
termination
  by (relation "measure (\<lambda>(sep, text). length text)") (auto simp: neq_Nil_conv)

text \<open>
  \<^verbatim>\<open>_split_text_with_regex(text, separator, keep_separator=True)\<close>. With a separator,
  \<^verbatim>\<open>re.split\<close> on the parenthesised pattern returns the pieces and the separators in
  turn; each separator is put in front of the piece that follows it. Without one, the
  text falls into its characters. Empty strings are left out.
\<close>

definition split_text_with_regex :: "string \<Rightarrow> string \<Rightarrow> string list" where
  "split_text_with_regex text separator =
     filter (\<lambda>s. s \<noteq> [])
       (if separator \<noteq> [] then
          (case re_split separator text of
             [] \<Rightarrow> []
           | t0 # ts \<Rightarrow> t0 # map (\<lambda>t. separator @ t) ts)
        else map (\<lambda>c. [c]) text)"

subsection \<open>Merging splits into chunks\<close>

text \<open>
  \<^verbatim>\<open>_join_docs(docs, separator)\<close>: the joined text, stripped; \<^verbatim>\<open>None\<close> when nothing
  is left.
\<close>

definition join_docs :: "string list \<Rightarrow> string \<Rightarrow> string option" where
  "join_docs ds separator =
     (let t = strip (str_join separator ds) in if t = [] then None else Some t)"

text \<open>\<^verbatim>\<open>if doc is not None: docs.append(doc)\<close>\<close>

definition append_doc :: "string list \<Rightarrow> string option \<Rightarrow> string list" where
  "append_doc docs doc = (case doc of None \<Rightarrow> docs | Some d \<Rightarrow> docs @ [d])"

text \<open>
  The inner loop of \<^verbatim>\<open>_merge_splits\<close>, which drops splits from the front of
  \<^verbatim>\<open>current_doc\<close>:
  \<^verbatim>\<open>
  while total > self._chunk_overlap or (
      total + _len + (separator_len if len(current_doc) > 0 else 0) > self._chunk_size
      and total > 0
  ):
      total -= self._length_function(current_doc[0]) + (
          separator_len if len(current_doc) > 1 else 0
      )
      current_doc = current_doc[1:]
  \<close>
  \<^verbatim>\<open>current_doc[0]\<close> raises on an empty list.
\<close>

fun pop_front ::
  "int \<Rightarrow> int \<Rightarrow> int \<Rightarrow> int \<Rightarrow> int \<Rightarrow> string list \<Rightarrow> error + (int \<times> string list)" where
  "pop_front chunk_size chunk_overlap separator_len len tot [] =
     (if tot > chunk_overlap \<or> (tot + len + 0 > chunk_size \<and> tot > 0)
      then Inl IndexError
      else Inr (tot, []))"
| "pop_front chunk_size chunk_overlap separator_len len tot (d # ds) =
     (if tot > chunk_overlap \<or> (tot + len + separator_len > chunk_size \<and> tot > 0)
      then pop_front chunk_size chunk_overlap separator_len len
             (tot - (int (length d) + (if length (d # ds) > 1 then separator_len else 0))) ds
      else Inr (tot, d # ds))"

text \<open>
  The body of the outer loop of \<^verbatim>\<open>_merge_splits(splits, separator)\<close>, for one split
  \<open>d\<close>, on the state \<^verbatim>\<open>docs\<close>, \<^verbatim>\<open>current_doc\<close>, \<^verbatim>\<open>total\<close> (here
  \<open>tot\<close>):
  \<^verbatim>\<open>
  _len = self._length_function(d)
  if total + _len + (separator_len if len(current_doc) > 0 else 0) > self._chunk_size:
      if total > self._chunk_size:
          logger.warning(...)
      if len(current_doc) > 0:
          doc = self._join_docs(current_doc, separator)
          if doc is not None:
              docs.append(doc)
          while ...
  current_doc.append(d)
  total += _len + (separator_len if len(current_doc) > 1 else 0)
  \<close>
\<close>

definition merge_step ::
  "int \<Rightarrow> int \<Rightarrow> string \<Rightarrow> string \<Rightarrow> string list \<times> string list \<times> int \<Rightarrow>
   error + (string list \<times> string list \<times> int)" where
  "merge_step chunk_size chunk_overlap separator d st =
     (case st of (docs, current_doc, tot) \<Rightarrow>
        let len = int (length d); separator_len = int (length separator) in
        (case
           (if tot + len + (if length current_doc > 0 then separator_len else 0) > chunk_size
            then
              if length current_doc > 0 then
                (case pop_front chunk_size chunk_overlap separator_len len tot current_doc of
                   Inl e \<Rightarrow> Inl e
                 | Inr (tot', current_doc') \<Rightarrow>
                     Inr (append_doc docs (join_docs current_doc separator), current_doc', tot'))
              else Inr (docs, current_doc, tot)
            else Inr (docs, current_doc, tot))
         of
           Inl e \<Rightarrow> Inl e
         | Inr (docs', current_doc', tot') \<Rightarrow>
             Inr (docs', current_doc' @ [d],
                  tot' + (len + (if length (current_doc' @ [d]) > 1 then separator_len else 0)))))"

text \<open>
  The loop over the splits; after it the rest of \<^verbatim>\<open>current_doc\<close> is joined into a
  last chunk.
\<close>

fun merge_loop ::
  "int \<Rightarrow> int \<Rightarrow> string \<Rightarrow> string list \<Rightarrow> string list \<times> string list \<times> int \<Rightarrow>
   error + string list" where
  "merge_loop chunk_size chunk_overlap separator [] st =
     (case st of (docs, current_doc, tot) \<Rightarrow>
        Inr (append_doc docs (join_docs current_doc separator)))"
| "merge_loop chunk_size chunk_overlap separator (d # ds) st =
     (case merge_step chunk_size chunk_overlap separator d st of
        Inl e \<Rightarrow> Inl e
      | Inr st' \<Rightarrow> merge_loop chunk_size chunk_overlap separator ds st')"

definition merge_splits :: "int \<Rightarrow> int \<Rightarrow> string list \<Rightarrow> string \<Rightarrow> error + string list" where
  "merge_splits chunk_size chunk_overlap splits separator =
     merge_loop chunk_size chunk_overlap separator splits ([], [], 0)"

subsection \<open>The recursive split\<close>

text \<open>
  The search for the separator at the head of \<^verbatim>\<open>_split_text\<close>:
  \<^verbatim>\<open>
  for i, _s in enumerate(separators):
      if _s == "":
          separator = _s
          break
      if re.search(_separator, text):
          separator = _s
          new_separators = separators[i + 1 :]
          break
  \<close>
  \<open>None\<close> when the loop ends without a \<^verbatim>\<open>break\<close>.
\<close>

fun pick_separator :: "string list \<Rightarrow> string \<Rightarrow> (string \<times> string list) option" where
  "pick_separator [] text = None"
| "pick_separator (s # ss) text =
     (if s = [] then Some ([], [])
      else if re_search s text then Some (s, ss)
      else pick_separator ss text)"

lemma pick_separator_shorter:
  "pick_separator seps text = Some (s, ns) \<Longrightarrow> length ns < length seps"
  by (induction seps) (auto split: if_splits)

text \<open>
  \<^verbatim>\<open>_split_text(text, separators)\<close>, and its loop over the splits with the state
  \<^verbatim>\<open>_good_splits\<close>, \<^verbatim>\<open>final_chunks\<close>. \<^verbatim>\<open>separators[-1]\<close> raises on an empty
  list. With \<^verbatim>\<open>keep_separator\<close> set, the splits are merged with the empty separator.
\<close>

function split_text_rec :: "int \<Rightarrow> int \<Rightarrow> string list \<Rightarrow> string \<Rightarrow> error + string list"
  and split_loop ::
    "int \<Rightarrow> int \<Rightarrow> string list \<Rightarrow> string list \<Rightarrow> string list \<Rightarrow> string list \<Rightarrow>
     error + string list" where
  "split_text_rec chunk_size chunk_overlap separators text =
     (if separators = [] then Inl IndexError
      else
        (case pick_separator separators text of
           None \<Rightarrow>
             split_loop chunk_size chunk_overlap []
               (split_text_with_regex text (last separators)) [] []
         | Some (separator, new_separators) \<Rightarrow>
             split_loop chunk_size chunk_overlap new_separators
               (split_text_with_regex text separator) [] []))"
| "split_loop chunk_size chunk_overlap new_separators [] good_splits final_chunks =
     (if good_splits \<noteq> [] then
        (case merge_splits chunk_size chunk_overlap good_splits [] of
           Inl e \<Rightarrow> Inl e
         | Inr merged_text \<Rightarrow> Inr (final_chunks @ merged_text))
      else Inr final_chunks)"
| "split_loop chunk_size chunk_overlap new_separators (s # ss) good_splits final_chunks =
     (if int (length s) < chunk_size then
        split_loop chunk_size chunk_overlap new_separators ss (good_splits @ [s]) final_chunks
      else
        (case (if good_splits \<noteq> [] then
                 (case merge_splits chunk_size chunk_overlap good_splits [] of
                    Inl e \<Rightarrow> Inl e
                  | Inr merged_text \<Rightarrow> Inr (final_chunks @ merged_text))
               else Inr final_chunks) of
           Inl e \<Rightarrow> Inl e
         | Inr final_chunks' \<Rightarrow>
             if new_separators = [] then
               split_loop chunk_size chunk_overlap new_separators ss [] (final_chunks' @ [s])
             else
               (case split_text_rec chunk_size chunk_overlap new_separators s of
                  Inl e \<Rightarrow> Inl e
                | Inr other_info \<Rightarrow>
                    split_loop chunk_size chunk_overlap new_separators ss []
                      (final_chunks' @ other_info))))"
  by pat_completeness auto
termination
  by (relation "measures
        [\<lambda>x. case x of
           Inl (_, _, separators, _) \<Rightarrow> 2 * length separators
         | Inr (_, _, new_separators, _, _, _) \<Rightarrow> 2 * length new_separators + 1,
         \<lambda>x. case x of Inl _ \<Rightarrow> 0 | Inr (_, _, _, splits, _, _) \<Rightarrow> length splits]")
     (auto dest: pick_separator_shorter simp: neq_Nil_conv)

declare split_text_rec.simps [simp del]

text \<open>\<^verbatim>\<open>self._separators = separators or ["\n\n", "\n", " ", ""]\<close>\<close>

definition separators :: "string list" where
  "separators = [[CHR 0x0A, CHR 0x0A], [CHR 0x0A], '' '', []]"

text \<open>\<^verbatim>\<open>split_text(text)\<close> is \<^verbatim>\<open>self._split_text(text, self._separators)\<close>.\<close>

definition split_text :: "int \<Rightarrow> int \<Rightarrow> string \<Rightarrow> error + string list" where
  "split_text chunk_size chunk_overlap text =
     split_text_rec chunk_size chunk_overlap separators text"

subsection \<open>Cell 11: the documents\<close>

record document =
  page_content :: string
  metadata_recipe :: string

text \<open>
  \<^verbatim>\<open>
  splitter = RecursiveCharacterTextSplitter(chunk_size=1000, chunk_overlap=100)
  for _, row in recipes_combined.iterrows():
      chunks = splitter.split_text(row['description'])
      for chunk in chunks:
          docs.append(Document(page_content=chunk, metadata={"recipe": row['recipe']}))
  \<close>
\<close>

definition splitter :: "string \<Rightarrow> error + string list" where
  "splitter = split_text 1000 100"

fun docs :: "recipe_row list \<Rightarrow> error + document list" where
  "docs [] = Inr []"
| "docs (row # rows) =
     (case splitter (description row) of
        Inl e \<Rightarrow> Inl e
      | Inr chunks \<Rightarrow>
          (case docs rows of
             Inl e \<Rightarrow> Inl e
           | Inr rest \<Rightarrow>
               Inr (map (\<lambda>chunk. \<lparr>page_content = chunk, metadata_recipe = recipe row\<rparr>) chunks
                    @ rest)))"

subsection \<open>A small book\<close>

text \<open>
  Five pages and three entries of a table of contents: page 22 lies before the recipe
  pages, page 23 is a recipe page that no recipe entry precedes.
\<close>

definition ex_book :: "page_row list" where
  "ex_book =
     [\<lparr>page_number = 22, page_text = ''Brunch''\<rparr>,
      \<lparr>page_number = 23, page_text = ''photo''\<rparr>,
      \<lparr>page_number = 24, page_text = ''Soup''\<rparr>,
      \<lparr>page_number = 25, page_text = ''Stir.''\<rparr>,
      \<lparr>page_number = 26, page_text = ''Cake''\<rparr>]"

definition ex_toc :: "toc_row list" where
  "ex_toc =
     [\<lparr>level = 1, title = ''Brunch'', toc_page = 21\<rparr>,
      \<lparr>level = 2, title = ''Soup'', toc_page = 24\<rparr>,
      \<lparr>level = 2, title = ''Cake'', toc_page = 26\<rparr>]"


text \<open>A book in which the title \<open>Soup\<close> marks two entries, at pages 23 and 27.\<close>

definition dup_book :: "page_row list" where
  "dup_book =
     [\<lparr>page_number = 23, page_text = ''s1''\<rparr>,
      \<lparr>page_number = 24, page_text = ''s2''\<rparr>,
      \<lparr>page_number = 25, page_text = ''c1''\<rparr>,
      \<lparr>page_number = 26, page_text = ''c2''\<rparr>,
      \<lparr>page_number = 27, page_text = ''s3''\<rparr>,
      \<lparr>page_number = 28, page_text = ''s4''\<rparr>]"

definition dup_toc :: "toc_row list" where
  "dup_toc =
     [\<lparr>level = 2, title = ''Soup'', toc_page = 23\<rparr>,
      \<lparr>level = 2, title = ''Cake'', toc_page = 25\<rparr>,
      \<lparr>level = 2, title = ''Soup'', toc_page = 27\<rparr>]"

text \<open>
  A description of 1203 characters: a sentence of 600 letters, then two words of 300
  letters each.
\<close>

definition long_text :: string where
  "long_text = (replicate 600 CHR ''a'' @ ''.'') @ '' '' @ replicate 300 CHR ''b'' @ '' '' @ replicate 300 CHR ''c''"

subsection \<open>Chunks that cover a text\<close>

text \<open>
  The notions in which the claims on the chunks are stated. A cover of a text is a list
  of pieces, each with the number of characters at its end that the next piece repeats:
  \<open>trimmed\<close> is the pieces put together without the repeated ends, \<open>stripped\<close> is
  the chunks made of them (each piece stripped, empty ones left out), \<open>overlaps_ok\<close>
  says that what a piece is to lose is what the next piece starts with, and that the
  last piece loses nothing.
\<close>

definition trimmed :: "(string \<times> nat) list \<Rightarrow> string" where
  "trimmed rks = concat (map (\<lambda>rk. take (length (fst rk) - snd rk) (fst rk)) rks)"

definition stripped :: "(string \<times> nat) list \<Rightarrow> string list" where
  "stripped rks = filter (\<lambda>s. s \<noteq> []) (map (\<lambda>rk. strip (fst rk)) rks)"

fun overlaps_ok :: "(string \<times> nat) list \<Rightarrow> bool" where
  "overlaps_ok [] = True"
| "overlaps_ok [rk] = (snd rk = 0)"
| "overlaps_ok (rk # rk' # rks) =
     (snd rk \<le> length (fst rk) \<and>
      drop (length (fst rk) - snd rk) (fst rk) = take (snd rk) (fst rk') \<and>
      overlaps_ok (rk' # rks))"

definition bounded :: "int \<Rightarrow> int \<Rightarrow> (string \<times> nat) list \<Rightarrow> bool" where
  "bounded chunk_size chunk_overlap rks \<longleftrightarrow>
     list_all (\<lambda>rk. int (length (fst rk)) \<le> chunk_size \<and> int (snd rk) \<le> chunk_overlap) rks"


section \<open>Properties of the segmentation\<close>

lemma sorts_by_sort_key: "sorts_by key (sort_key key)"
  by (simp add: sorts_by_def)

lemma first_seen_set: "set (first_seen xs) = set xs"
  by (induction xs) auto

lemma first_seen_distinct: "distinct (first_seen xs)"
  by (induction xs) (auto simp: first_seen_set)

lemma merged_ok:
  assumes "sorts_by page_number srt_df" and "sorts_by toc_page srt_toc"
  shows "merged srt_df srt_toc rdf rtoc =
         Inr (map (\<lambda>p. join_row p (asof_backward (srt_toc rtoc) (page_number p))) (srt_df rdf))"
  using assms by (simp add: merged_def merge_asof_def sorts_by_def)

lemma sorts_by_set: "sorts_by key srt \<Longrightarrow> set (srt xs) = set xs"
  by (metis sorts_by_def set_mset_mset)

lemma sorts_by_mset: "sorts_by key srt \<Longrightarrow> mset (srt xs) = mset xs"
  by (simp add: sorts_by_def)

lemma sorts_by_sorted: "sorts_by key srt \<Longrightarrow> sorted (map key (srt xs))"
  by (simp add: sorts_by_def)

subsection \<open>The grouping\<close>

lemma concat_groups_mset:
  "distinct ks \<Longrightarrow>
   mset (concat (map (\<lambda>k. filter (\<lambda>r. f r = Some k) rows) ks)) =
   mset (filter (\<lambda>r. \<exists>k\<in>set ks. f r = Some k) rows)"
proof (induction ks)
  case Nil
  then show ?case by simp
next
  case (Cons k ks)
  have "mset (filter (\<lambda>r. \<exists>j\<in>set (k # ks). f r = Some j) rows) =
        mset (filter (\<lambda>r. f r = Some k) rows) + mset (filter (\<lambda>r. \<exists>j\<in>set ks. f r = Some j) rows)"
    using Cons.prems by (induction rows) auto
  with Cons show ?case by simp
qed

lemma set_map_filter: "set (List.map_filter f xs) = {y. \<exists>x\<in>set xs. f x = Some y}"
  by (induction xs) (auto simp: List.map_filter_simps split: option.splits)

lemma groupby_title_mset:
  "mset (concat (map snd (groupby_title rows))) = mset (filter (\<lambda>r. m_title r \<noteq> None) rows)"
proof -
  let ?ks = "first_seen (List.map_filter m_title rows)"
  have "mset (concat (map snd (groupby_title rows))) =
        mset (concat (map (\<lambda>k. filter (\<lambda>r. m_title r = Some k) rows) ?ks))"
    by (simp add: groupby_title_def comp_def)
  also have "\<dots> = mset (filter (\<lambda>r. \<exists>k\<in>set ?ks. m_title r = Some k) rows)"
    by (rule concat_groups_mset) (rule first_seen_distinct)
  also have "\<dots> = mset (filter (\<lambda>r. m_title r \<noteq> None) rows)"
    by (rule arg_cong[where f=mset], rule filter_cong) (auto simp: first_seen_set set_map_filter)
  finally show ?thesis .
qed

lemma groupby_title_keys:
  "map fst (groupby_title rows) = first_seen (List.map_filter m_title rows)"
  by (simp add: groupby_title_def comp_def)

subsection \<open>The as-of match\<close>

lemma sorted_last_max:
  "sorted (map f ys) \<Longrightarrow> y \<in> set ys \<Longrightarrow> f y \<le> (f (last ys) :: int)"
  by (induction ys) auto

lemma asof_backward_alt:
  "asof_backward right k =
     (if filter (\<lambda>e. toc_page e \<le> k) right = [] then None
      else Some (last (filter (\<lambda>e. toc_page e \<le> k) right)))"
  by (simp add: asof_backward_def split: list.splits)

lemma asof_backward_None:
  "asof_backward right k = None \<longleftrightarrow> (\<forall>e\<in>set right. k < toc_page e)"
  by (auto simp: asof_backward_alt filter_empty_conv not_le)

lemma asof_backward_Some:
  assumes "asof_backward right k = Some e"
  shows "e \<in> set right" and "toc_page e \<le> k"
proof -
  let ?es = "filter (\<lambda>e. toc_page e \<le> k) right"
  from assms have ne: "?es \<noteq> []" and e: "e = last ?es"
    by (auto simp: asof_backward_alt split: if_splits)
  from ne have "last ?es \<in> set ?es" by (rule last_in_set)
  with e show "e \<in> set right" and "toc_page e \<le> k" by auto
qed

lemma asof_backward_greatest:
  assumes "sorted (map toc_page right)" and "asof_backward right k = Some e"
    and "e' \<in> set right" and "toc_page e' \<le> k"
  shows "toc_page e' \<le> toc_page e"
proof -
  let ?es = "filter (\<lambda>e. toc_page e \<le> k) right"
  from assms(2) have e: "e = last ?es"
    by (auto simp: asof_backward_alt split: if_splits)
  have "sorted (map toc_page ?es)" using assms(1) by (rule sorted_filter)
  moreover have "e' \<in> set ?es" using assms(3,4) by simp
  ultimately show ?thesis unfolding e by (rule sorted_last_max)
qed

text \<open>Among the rows that match, the one picked comes last in the right frame.\<close>

lemma asof_backward_last:
  assumes "asof_backward right k = Some e"
  shows "\<exists>pre post. right = pre @ e # post \<and> (\<forall>e'\<in>set post. k < toc_page e')"
proof -
  let ?P = "\<lambda>e. toc_page e \<le> k"
  from assms have ne: "filter ?P right \<noteq> []" and e: "e = last (filter ?P right)"
    by (auto simp: asof_backward_alt split: if_splits)
  have "filter ?P right \<noteq> [] \<Longrightarrow>
        \<exists>pre post. right = pre @ last (filter ?P right) # post \<and> (\<forall>e'\<in>set post. k < toc_page e')"
  proof (induction right)
    case Nil
    then show ?case by simp
  next
    case (Cons a right)
    show ?case
    proof (cases "filter ?P right = []")
      case True
      with Cons.prems have "?P a" by (auto split: if_splits)
      with True have "last (filter ?P (a # right)) = a" by simp
      moreover from True have "\<forall>e'\<in>set right. k < toc_page e'"
        by (auto simp: filter_empty_conv not_le)
      ultimately show ?thesis by (metis append_Nil)
    next
      case False
      from Cons.IH[OF False] obtain pre post where
        "right = pre @ last (filter ?P right) # post" "\<forall>e'\<in>set post. k < toc_page e'" by blast
      moreover from False have "last (filter ?P (a # right)) = last (filter ?P right)" by simp
      ultimately show ?thesis by (metis append_Cons)
    qed
  qed
  with ne e show ?thesis by simp
qed

text \<open>The level filter keeps the entries in the order of the outline.\<close>

lemma recipes_toc_keeps_order:
  assumes "doc_toc = a @ e1 # b @ e2 # c" and "level e1 = 2" and "level e2 = 2"
  shows "recipes_toc doc_toc = recipes_toc a @ e1 # recipes_toc b @ e2 # recipes_toc c"
  using assms by (simp add: recipes_toc_def)

lemma recipes_toc_set: "set (recipes_toc doc_toc) = {e \<in> set doc_toc. level e = 2}"
  by (auto simp: recipes_toc_def)

lemma join_row_title_None:
  "m_title (join_row p (asof_backward right k)) \<noteq> None \<longleftrightarrow> (\<exists>e\<in>set right. toc_page e \<le> k)"
  using asof_backward_None[of right k]
  by (cases "asof_backward right k") (auto simp: join_row_def not_less)


lemma filter_eq_appendD:
  "filter P ys = xs1 @ xs2 \<Longrightarrow> \<exists>ys1 ys2. ys = ys1 @ ys2 \<and> filter P ys1 = xs1 \<and> filter P ys2 = xs2"
proof (induction ys arbitrary: xs1)
  case Nil
  then show ?case by simp
next
  case (Cons y ys)
  show ?case
  proof (cases "P y \<and> xs1 \<noteq> []")
    case True
    with Cons.prems obtain xs1' where xs1: "xs1 = y # xs1'" and "filter P ys = xs1' @ xs2"
      by (cases xs1) auto
    from Cons.IH[OF this(2)] obtain ys1 ys2 where
      "ys = ys1 @ ys2" "filter P ys1 = xs1'" "filter P ys2 = xs2" by blast
    with True xs1 have "y # ys = (y # ys1) @ ys2 \<and> filter P (y # ys1) = xs1 \<and> filter P ys2 = xs2"
      by simp
    then show ?thesis by blast
  next
    case False
    show ?thesis
    proof (cases "P y")
      case True
      with False have "xs1 = []" by simp
      with Cons.prems have "y # ys = [] @ (y # ys) \<and> filter P [] = xs1 \<and> filter P (y # ys) = xs2"
        by simp
      then show ?thesis by blast
    next
      case False
      with Cons.prems have "filter P ys = xs1 @ xs2" by simp
      from Cons.IH[OF this] obtain ys1 ys2 where
        "ys = ys1 @ ys2" "filter P ys1 = xs1" "filter P ys2 = xs2" by blast
      with False have "y # ys = (y # ys1) @ ys2 \<and> filter P (y # ys1) = xs1 \<and> filter P ys2 = xs2"
        by simp
      then show ?thesis by blast
    qed
  qed
qed

lemma filter_eq_two:
  assumes "filter P ys = us @ a # vs @ b # ws"
  shows "\<exists>us' vs' ws'. ys = us' @ a # vs' @ b # ws'"
proof -
  from filter_eq_appendD[of P ys us "a # vs @ b # ws"] assms obtain y1 y2 where
    y: "ys = y1 @ y2" and f2: "filter P y2 = a # vs @ b # ws" by auto
  from filter_eq_ConsD[OF f2] obtain u1 v1 where
    y2: "y2 = u1 @ a # v1" and f3: "filter P v1 = vs @ b # ws" by auto
  from filter_eq_appendD[of P v1 vs "b # ws"] f3 obtain z1 z2 where
    v1: "v1 = z1 @ z2" and f4: "filter P z2 = b # ws" by auto
  from filter_eq_ConsD[OF f4] obtain u2 v2 where z2: "z2 = u2 @ b # v2" by auto
  have "ys = (y1 @ u1) @ a # (z1 @ u2) @ b # v2" by (simp add: y y2 v1 z2)
  then show ?thesis by blast
qed

lemma first_seen_order:
  "first_seen xs = us @ a # vs @ b # ws \<Longrightarrow>
   \<exists>pre post. xs = pre @ b # post \<and> b \<notin> set pre \<and> a \<in> set pre"
proof (induction xs arbitrary: us vs ws)
  case Nil
  then show ?case by simp
next
  case (Cons x xs)
  note IH = Cons.IH and prems = Cons.prems
  show ?case
  proof (cases us)
    case Nil
    with prems have a: "a = x" and f: "filter (\<lambda>y. y \<noteq> x) (first_seen xs) = vs @ b # ws"
      by auto
    have "b \<in> set (filter (\<lambda>y. y \<noteq> x) (first_seen xs))" unfolding f by simp
    then have "b \<noteq> x" "b \<in> set xs" by (simp_all add: first_seen_set)
    from split_list_first[OF this(2)] obtain pre post where "xs = pre @ b # post" "b \<notin> set pre"
      by blast
    with \<open>b \<noteq> x\<close> a have "x # xs = (x # pre) @ b # post \<and> b \<notin> set (x # pre) \<and> a \<in> set (x # pre)"
      by simp
    then show ?thesis by blast
  next
    case (Cons u us')
    with prems have f: "filter (\<lambda>y. y \<noteq> x) (first_seen xs) = us' @ a # vs @ b # ws"
      by auto
    have "b \<in> set (filter (\<lambda>y. y \<noteq> x) (first_seen xs))" unfolding f by simp
    then have "b \<noteq> x" by simp
    from filter_eq_two[OF f] obtain us'' vs'' ws'' where "first_seen xs = us'' @ a # vs'' @ b # ws''"
      by blast
    from IH[OF this] obtain pre post where "xs = pre @ b # post" "b \<notin> set pre" "a \<in> set pre"
      by blast
    with \<open>b \<noteq> x\<close> have "x # xs = (x # pre) @ b # post \<and> b \<notin> set (x # pre) \<and> a \<in> set (x # pre)"
      by simp
    then show ?thesis by blast
  qed
qed

lemma distinct_key_filter:
  "distinct (map f xs) \<Longrightarrow> x \<in> set xs \<Longrightarrow> filter (\<lambda>y. f y = f x) xs = [x]"
proof (induction xs)
  case Nil
  then show ?case by simp
next
  case (Cons a xs)
  show ?case
  proof (cases "a = x")
    case True
    with Cons.prems(1) have "filter (\<lambda>y. f y = f x) xs = []"
      by (auto simp: filter_empty_conv image_iff)
    with True show ?thesis by simp
  next
    case False
    with Cons.prems have "x \<in> set xs" "f a \<noteq> f x" by (auto simp: image_iff)
    with Cons show ?thesis by simp
  qed
qed

lemma map_filter_map: "List.map_filter f (map g xs) = List.map_filter (f \<circ> g) xs"
  by (induction xs) (simp_all split: option.splits)

lemma recipes_of_book_eq:
  assumes "sorts_by page_number srt_df" and "sorts_by toc_page srt_toc"
  shows "recipes_of_book srt_df srt_toc book_df doc_toc =
     Inr (map (\<lambda>t. \<lparr>recipe = t, description = str_join '' ''
             (map page_text (filter
                (\<lambda>p. map_option title (asof_backward (srt_toc (recipes_toc doc_toc)) (page_number p)) = Some t)
                (srt_df (recipes_df book_df))))\<rparr>)
       (first_seen (List.map_filter
          (\<lambda>p. map_option title (asof_backward (srt_toc (recipes_toc doc_toc)) (page_number p)))
          (srt_df (recipes_df book_df)))))"
proof -
  let ?right = "srt_toc (recipes_toc doc_toc)"
  let ?J = "\<lambda>p. join_row p (asof_backward ?right (page_number p))"
  let ?left = "srt_df (recipes_df book_df)"
  have m: "merged srt_df srt_toc (recipes_df book_df) (recipes_toc doc_toc) = Inr (map ?J ?left)"
    using assms by (rule merged_ok)
  have t: "m_title (?J p) = map_option title (asof_backward ?right (page_number p))" for p
    by (simp add: join_row_def)
  have x: "m_text (?J p) = page_text p" for p
    by (simp add: join_row_def)
  have g: "groupby_title (map ?J ?left) =
      map (\<lambda>t. (t, map ?J (filter (\<lambda>p. map_option title (asof_backward ?right (page_number p)) = Some t) ?left)))
        (first_seen (List.map_filter (\<lambda>p. map_option title (asof_backward ?right (page_number p))) ?left))"
    unfolding groupby_title_def map_filter_map filter_map comp_def t ..
  have "recipes_of_book srt_df srt_toc book_df doc_toc = Inr (map combine (groupby_title (map ?J ?left)))"
    by (simp add: recipes_of_book_def recipes_combined_def m)
  also have "map combine (groupby_title (map ?J ?left)) = 
     map (\<lambda>t. \<lparr>recipe = t, description = str_join '' ''
             (map page_text (filter
                (\<lambda>p. map_option title (asof_backward ?right (page_number p)) = Some t) ?left))\<rparr>)
       (first_seen (List.map_filter
          (\<lambda>p. map_option title (asof_backward ?right (page_number p))) ?left))"
    unfolding g by (simp add: combine_def comp_def x)
  finally show ?thesis .
qed

lemmas pipeline_defs = grouped_pages_def recipes_of_book_def recipes_combined_def merged_def
  merge_asof_def recipes_df_def recipes_toc_def between_def asof_backward_def join_row_def
  groupby_title_def combine_def

lemma ex_book_not_Nil: "ex_book \<noteq> []"
  by (simp add: ex_book_def)

lemma ex_toc_not_Nil: "ex_toc \<noteq> []"
  by (simp add: ex_toc_def)

lemma small_book_recipes: "recipes_of_book (sort_key page_number) (sort_key toc_page) ex_book ex_toc =
     Inr [\<lparr>recipe = ''Soup'', description = ''Soup Stir.''\<rparr>, \<lparr>recipe = ''Cake'', description = ''Cake''\<rparr>]"
  by (simp add: pipeline_defs ex_book_def ex_toc_def)

lemma groupby_title_member:
  "g \<in> set (groupby_title rows) \<longleftrightarrow>
   (\<exists>r\<in>set rows. m_title r = Some (fst g)) \<and> snd g = filter (\<lambda>r. m_title r = Some (fst g)) rows"
  by (cases g) (auto simp: groupby_title_def first_seen_set set_map_filter)



lemma dup_book_recipes:
  "recipes_of_book (sort_key page_number) (sort_key toc_page) dup_book dup_toc =
     Inr [\<lparr>recipe = ''Soup'', description = ''s1 s2 s3 s4''\<rparr>,
          \<lparr>recipe = ''Cake'', description = ''c1 c2''\<rparr>]"
  by (simp add: pipeline_defs dup_book_def dup_toc_def)

section \<open>The claims on the segmentation\<close>

text \<open>
  Claim C1, amended. The groups of a run hold, each exactly once, the pages of the book
  whose number lies in the range 23 to 449 and is at or after the page of some recipe
  entry (an entry of level 2): no such page is dropped and none is in two groups, the
  group keys being distinct. A page outside the range, and a page of the range that
  comes before every recipe entry, is in no group. The run returns normally, and the
  recipes are the groups with their texts joined.
\<close>

theorem pages_assigned_once:
  assumes "sorts_by page_number srt_df" and "sorts_by toc_page srt_toc"
    and "book_df \<noteq> []" and "doc_toc \<noteq> []"
  shows "\<exists>gs. grouped_pages srt_df srt_toc book_df doc_toc = Inr gs \<and>
           recipes_of_book srt_df srt_toc book_df doc_toc = Inr (map combine gs) \<and>
           distinct (map fst gs) \<and>
           mset (map (\<lambda>r. (m_page_number r, m_text r)) (concat (map snd gs))) =
           mset (map (\<lambda>p. (page_number p, page_text p))
             (filter (\<lambda>p. between 23 449 (page_number p) \<and>
                          (\<exists>e\<in>set doc_toc. level e = 2 \<and> toc_page e \<le> page_number p)) book_df))"
proof -
  let ?right = "srt_toc (recipes_toc doc_toc)"
  let ?J = "\<lambda>p. join_row p (asof_backward ?right (page_number p))"
  let ?left = "srt_df (recipes_df book_df)"
  let ?rows = "map ?J ?left"
  let ?pr = "\<lambda>r. (m_page_number r, m_text r)"
  let ?pp = "\<lambda>p. (page_number p, page_text p)"
  let ?M = "\<lambda>p. \<exists>e\<in>set doc_toc. level e = 2 \<and> toc_page e \<le> page_number p"
  have m: "merged srt_df srt_toc (recipes_df book_df) (recipes_toc doc_toc) = Inr ?rows"
    using assms(1,2) by (rule merged_ok)
  have right: "set ?right = {e \<in> set doc_toc. level e = 2}"
    using assms(2) by (simp add: sorts_by_set recipes_toc_set)
  have matched: "m_title (?J p) \<noteq> None \<longleftrightarrow> ?M p" for p
    unfolding join_row_title_None right by auto
  have "mset (map ?pr (concat (map snd (groupby_title ?rows)))) =
        image_mset ?pr (mset (filter (\<lambda>r. m_title r \<noteq> None) ?rows))"
    by (simp only: mset_map groupby_title_mset)
  also have "\<dots> = image_mset ?pr (image_mset ?J (filter_mset ?M (mset ?left)))"
    using matched by (simp add: filter_map comp_def)
  also have "\<dots> = image_mset ?pp (filter_mset ?M (mset ?left))"
    by (simp add: image_mset.compositionality comp_def join_row_def)
  also have "mset ?left = mset (recipes_df book_df)"
    using assms(1) by (rule sorts_by_mset)
  also have "image_mset ?pp (filter_mset ?M (mset (recipes_df book_df))) =
     mset (map ?pp (filter (\<lambda>p. between 23 449 (page_number p) \<and> ?M p) book_df))"
    by (simp add: recipes_df_def filter_filter_mset conj_commute)
  finally have cover: "mset (map ?pr (concat (map snd (groupby_title ?rows)))) =
     mset (map ?pp (filter (\<lambda>p. between 23 449 (page_number p) \<and> ?M p) book_df))" .
  have "grouped_pages srt_df srt_toc book_df doc_toc = Inr (groupby_title ?rows)"
    by (simp add: grouped_pages_def m)
  moreover have "recipes_of_book srt_df srt_toc book_df doc_toc = Inr (map combine (groupby_title ?rows))"
    by (simp add: recipes_of_book_def recipes_combined_def m)
  moreover have "distinct (map fst (groupby_title ?rows))"
    by (simp only: groupby_title_keys first_seen_distinct)
  ultimately show ?thesis using cover by blast
qed

theorem pages_assigned_once_witness:
  "sorts_by page_number (sort_key page_number) \<and> sorts_by toc_page (sort_key toc_page) \<and>
   ex_book \<noteq> [] \<and> ex_toc \<noteq> [] \<and>
   (\<exists>gs. grouped_pages (sort_key page_number) (sort_key toc_page) ex_book ex_toc = Inr gs \<and>
      recipes_of_book (sort_key page_number) (sort_key toc_page) ex_book ex_toc = Inr (map combine gs) \<and>
      distinct (map fst gs) \<and>
      mset (map (\<lambda>r. (m_page_number r, m_text r)) (concat (map snd gs))) =
      mset (map (\<lambda>p. (page_number p, page_text p))
        (filter (\<lambda>p. between 23 449 (page_number p) \<and>
                     (\<exists>e\<in>set ex_toc. level e = 2 \<and> toc_page e \<le> page_number p)) ex_book)))"
proof (intro conjI)
  show "sorts_by page_number (sort_key page_number)" by (rule sorts_by_sort_key)
  show "sorts_by toc_page (sort_key toc_page)" by (rule sorts_by_sort_key)
  show "ex_book \<noteq> []" by (rule ex_book_not_Nil)
  show "ex_toc \<noteq> []" by (rule ex_toc_not_Nil)
  show "\<exists>gs. grouped_pages (sort_key page_number) (sort_key toc_page) ex_book ex_toc = Inr gs \<and>
      recipes_of_book (sort_key page_number) (sort_key toc_page) ex_book ex_toc = Inr (map combine gs) \<and>
      distinct (map fst gs) \<and>
      mset (map (\<lambda>r. (m_page_number r, m_text r)) (concat (map snd gs))) =
      mset (map (\<lambda>p. (page_number p, page_text p))
        (filter (\<lambda>p. between 23 449 (page_number p) \<and>
                     (\<exists>e\<in>set ex_toc. level e = 2 \<and> toc_page e \<le> page_number p)) ex_book))"
    by (rule pages_assigned_once [OF sorts_by_sort_key sorts_by_sort_key ex_book_not_Nil ex_toc_not_Nil])
qed

text \<open>
  Claim C1 as stated fails: page 23 of the small book lies in the range 23 to 449, its
  first recipe entry starts at page 24, and the page is in neither group.
\<close>

theorem in_range_page_unassigned:
  "between 23 449 23 \<and>
   grouped_pages (sort_key page_number) (sort_key toc_page) ex_book ex_toc =
     Inr [(''Soup'',
           [\<lparr>m_page_number = 24, m_text = ''Soup'', m_level = Some 2, m_title = Some ''Soup''\<rparr>,
            \<lparr>m_page_number = 25, m_text = ''Stir.'', m_level = Some 2, m_title = Some ''Soup''\<rparr>]),
          (''Cake'',
           [\<lparr>m_page_number = 26, m_text = ''Cake'', m_level = Some 2, m_title = Some ''Cake''\<rparr>])]"
  by (simp add: pipeline_defs ex_book_def ex_toc_def)

text \<open>
  Claim C2. The merge returns normally and has one row per page of the range. A row
  whose page has a recipe entry at or before it carries the title of such an entry with
  the greatest page, and is in the group of that title. A row whose page comes before
  every recipe entry has no title and is in no group: the grouping leaves it out.
\<close>

theorem asof_assignment:
  assumes "sorts_by page_number srt_df" and "sorts_by toc_page srt_toc"
    and "book_df \<noteq> []" and "doc_toc \<noteq> []"
  shows "\<exists>rows. merged srt_df srt_toc (recipes_df book_df) (recipes_toc doc_toc) = Inr rows \<and>
     grouped_pages srt_df srt_toc book_df doc_toc = Inr (groupby_title rows) \<and>
     mset (map m_page_number rows) = mset (map page_number (recipes_df book_df)) \<and>
     (\<forall>r\<in>set rows. case m_title r of
        None \<Rightarrow> (\<forall>e\<in>set (recipes_toc doc_toc). m_page_number r < toc_page e) \<and>
                (\<forall>g\<in>set (groupby_title rows). r \<notin> set (snd g))
      | Some t \<Rightarrow> (\<exists>e\<in>set (recipes_toc doc_toc). title e = t \<and> toc_page e \<le> m_page_number r \<and>
                     (\<forall>e'\<in>set (recipes_toc doc_toc).
                        toc_page e' \<le> m_page_number r \<longrightarrow> toc_page e' \<le> toc_page e)) \<and>
                  (\<exists>g\<in>set (groupby_title rows). fst g = t \<and> r \<in> set (snd g)))"
proof -
  let ?right = "srt_toc (recipes_toc doc_toc)"
  let ?J = "\<lambda>p. join_row p (asof_backward ?right (page_number p))"
  let ?left = "srt_df (recipes_df book_df)"
  let ?rows = "map ?J ?left"
  have m: "merged srt_df srt_toc (recipes_df book_df) (recipes_toc doc_toc) = Inr ?rows"
    using assms(1,2) by (rule merged_ok)
  have g: "grouped_pages srt_df srt_toc book_df doc_toc = Inr (groupby_title ?rows)"
    by (simp add: grouped_pages_def m)
  have right: "set ?right = set (recipes_toc doc_toc)"
    using assms(2) by (rule sorts_by_set)
  have srt: "sorted (map toc_page ?right)"
    using assms(2) by (rule sorts_by_sorted)
  have "mset (map m_page_number ?rows) = image_mset page_number (mset ?left)"
    by (simp add: comp_def join_row_def)
  also have "\<dots> = mset (map page_number (recipes_df book_df))"
    using assms(1) by (simp add: sorts_by_mset)
  finally have pages: "mset (map m_page_number ?rows) = mset (map page_number (recipes_df book_df))" .
  have each: "case m_title r of
        None \<Rightarrow> (\<forall>e\<in>set (recipes_toc doc_toc). m_page_number r < toc_page e) \<and>
                (\<forall>g\<in>set (groupby_title ?rows). r \<notin> set (snd g))
      | Some t \<Rightarrow> (\<exists>e\<in>set (recipes_toc doc_toc). title e = t \<and> toc_page e \<le> m_page_number r \<and>
                     (\<forall>e'\<in>set (recipes_toc doc_toc).
                        toc_page e' \<le> m_page_number r \<longrightarrow> toc_page e' \<le> toc_page e)) \<and>
                  (\<exists>g\<in>set (groupby_title ?rows). fst g = t \<and> r \<in> set (snd g))"
    if r: "r \<in> set ?rows" for r
  proof -
    from r obtain p where p: "p \<in> set ?left" and rp: "r = ?J p" by auto
    have num: "m_page_number r = page_number p" by (simp add: rp join_row_def)
    show ?thesis
    proof (cases "asof_backward ?right (page_number p)")
      case None
      then have t: "m_title r = None" by (simp add: rp join_row_def)
      from None have "\<forall>e\<in>set (recipes_toc doc_toc). m_page_number r < toc_page e"
        by (simp add: asof_backward_None right num)
      moreover have "\<forall>g\<in>set (groupby_title ?rows). r \<notin> set (snd g)"
        using t by (auto simp: groupby_title_member)
      ultimately show ?thesis by (simp add: t)
    next
      case (Some e)
      then have t: "m_title r = Some (title e)" by (simp add: rp join_row_def)
      from asof_backward_Some[OF Some] have e: "e \<in> set (recipes_toc doc_toc)" "toc_page e \<le> m_page_number r"
        by (simp_all add: right num)
      have "\<forall>e'\<in>set (recipes_toc doc_toc). toc_page e' \<le> m_page_number r \<longrightarrow> toc_page e' \<le> toc_page e"
        using asof_backward_greatest[OF srt Some] by (simp add: right num)
      with e have 1: "\<exists>b\<in>set (recipes_toc doc_toc). title b = title e \<and> toc_page b \<le> m_page_number r \<and>
                     (\<forall>e'\<in>set (recipes_toc doc_toc).
                        toc_page e' \<le> m_page_number r \<longrightarrow> toc_page e' \<le> toc_page b)"
        by blast
      let ?g = "(title e, filter (\<lambda>x. m_title x = Some (title e)) ?rows)"
      have "?g \<in> set (groupby_title ?rows)"
        unfolding groupby_title_member using r t by auto
      moreover have "r \<in> set (snd ?g)" using r t by simp
      ultimately have 2: "\<exists>g\<in>set (groupby_title ?rows). fst g = title e \<and> r \<in> set (snd g)"
        by (intro bexI[of _ ?g]) simp_all
      show ?thesis unfolding t option.case using 1 2 by (rule conjI)
    qed
  qed
  show ?thesis using m g pages each by blast
qed

theorem asof_assignment_witness:
  "sorts_by page_number (sort_key page_number) \<and> sorts_by toc_page (sort_key toc_page) \<and>
   ex_book \<noteq> [] \<and> ex_toc \<noteq> [] \<and>
   (\<exists>rows. merged (sort_key page_number) (sort_key toc_page) (recipes_df ex_book) (recipes_toc ex_toc) = Inr rows \<and>
     grouped_pages (sort_key page_number) (sort_key toc_page) ex_book ex_toc = Inr (groupby_title rows) \<and>
     mset (map m_page_number rows) = mset (map page_number (recipes_df ex_book)) \<and>
     (\<forall>r\<in>set rows. case m_title r of
        None \<Rightarrow> (\<forall>e\<in>set (recipes_toc ex_toc). m_page_number r < toc_page e) \<and>
                (\<forall>g\<in>set (groupby_title rows). r \<notin> set (snd g))
      | Some t \<Rightarrow> (\<exists>e\<in>set (recipes_toc ex_toc). title e = t \<and> toc_page e \<le> m_page_number r \<and>
                     (\<forall>e'\<in>set (recipes_toc ex_toc).
                        toc_page e' \<le> m_page_number r \<longrightarrow> toc_page e' \<le> toc_page e)) \<and>
                  (\<exists>g\<in>set (groupby_title rows). fst g = t \<and> r \<in> set (snd g))))"
proof (intro conjI)
  show "sorts_by page_number (sort_key page_number)" by (rule sorts_by_sort_key)
  show "sorts_by toc_page (sort_key toc_page)" by (rule sorts_by_sort_key)
  show "ex_book \<noteq> []" by (rule ex_book_not_Nil)
  show "ex_toc \<noteq> []" by (rule ex_toc_not_Nil)
  show "\<exists>rows. merged (sort_key page_number) (sort_key toc_page) (recipes_df ex_book) (recipes_toc ex_toc) = Inr rows \<and>
     grouped_pages (sort_key page_number) (sort_key toc_page) ex_book ex_toc = Inr (groupby_title rows) \<and>
     mset (map m_page_number rows) = mset (map page_number (recipes_df ex_book)) \<and>
     (\<forall>r\<in>set rows. case m_title r of
        None \<Rightarrow> (\<forall>e\<in>set (recipes_toc ex_toc). m_page_number r < toc_page e) \<and>
                (\<forall>g\<in>set (groupby_title rows). r \<notin> set (snd g))
      | Some t \<Rightarrow> (\<exists>e\<in>set (recipes_toc ex_toc). title e = t \<and> toc_page e \<le> m_page_number r \<and>
                     (\<forall>e'\<in>set (recipes_toc ex_toc).
                        toc_page e' \<le> m_page_number r \<longrightarrow> toc_page e' \<le> toc_page e)) \<and>
                  (\<exists>g\<in>set (groupby_title rows). fst g = t \<and> r \<in> set (snd g)))"
    by (rule asof_assignment [OF sorts_by_sort_key sorts_by_sort_key ex_book_not_Nil ex_toc_not_Nil])
qed

text \<open>
  Claim C3. The recipes come in the order in which their titles first appear along the
  pages in ascending page order: each title once, and of two recipes the earlier one has
  a page before the first page of the later one. The order is not alphabetical (the
  small book yields \<open>Soup\<close> before \<open>Cake\<close>). The description of a recipe is the
  texts of its pages, in page order, joined with one space.
\<close>

theorem recipes_first_seen_order:
  fixes srt_df srt_toc book_df doc_toc
  defines "sp \<equiv> srt_df (recipes_df book_df)"
    and "tof \<equiv> \<lambda>p. map_option title (asof_backward (srt_toc (recipes_toc doc_toc)) (page_number p))"
  assumes "sorts_by page_number srt_df" and "sorts_by toc_page srt_toc"
    and "book_df \<noteq> []" and "doc_toc \<noteq> []"
  shows "\<exists>rs. recipes_of_book srt_df srt_toc book_df doc_toc = Inr rs \<and>
     sorted (map page_number sp) \<and>
     distinct (map recipe rs) \<and>
     set (map recipe rs) = {t. \<exists>p\<in>set sp. tof p = Some t} \<and>
     (\<forall>us a vs b ws. map recipe rs = us @ a # vs @ b # ws \<longrightarrow>
        (\<exists>pre post. List.map_filter tof sp = pre @ b # post \<and> b \<notin> set pre \<and> a \<in> set pre)) \<and>
     (\<forall>r\<in>set rs. description r =
        str_join '' '' (map page_text (filter (\<lambda>p. tof p = Some (recipe r)) sp)))"
proof -
  let ?ks = "first_seen (List.map_filter tof sp)"
  let ?rs = "map (\<lambda>t. \<lparr>recipe = t, description =
      str_join '' '' (map page_text (filter (\<lambda>p. tof p = Some t) sp))\<rparr>) ?ks"
  have eq: "recipes_of_book srt_df srt_toc book_df doc_toc = Inr ?rs"
    unfolding sp_def tof_def using assms(3,4) by (rule recipes_of_book_eq)
  have keys: "map recipe ?rs = ?ks" by (simp add: comp_def)
  have "sorted (map page_number sp)"
    unfolding sp_def using assms(3) by (rule sorts_by_sorted)
  moreover have "distinct (map recipe ?rs)"
    unfolding keys by (rule first_seen_distinct)
  moreover have "set (map recipe ?rs) = {t. \<exists>p\<in>set sp. tof p = Some t}"
    unfolding keys by (simp add: first_seen_set set_map_filter)
  moreover have "\<forall>us a vs b ws. map recipe ?rs = us @ a # vs @ b # ws \<longrightarrow>
        (\<exists>pre post. List.map_filter tof sp = pre @ b # post \<and> b \<notin> set pre \<and> a \<in> set pre)"
    unfolding keys by (intro allI impI) (rule first_seen_order)
  moreover have "\<forall>r\<in>set ?rs. description r =
        str_join '' '' (map page_text (filter (\<lambda>p. tof p = Some (recipe r)) sp))"
    by auto
  ultimately show ?thesis using eq by blast
qed

theorem recipes_first_seen_order_witness:
  "sorts_by page_number (sort_key page_number) \<and> sorts_by toc_page (sort_key toc_page) \<and>
   ex_book \<noteq> [] \<and> ex_toc \<noteq> [] \<and>
   (\<exists>rs. recipes_of_book (sort_key page_number) (sort_key toc_page) ex_book ex_toc = Inr rs \<and>
     sorted (map page_number ((sort_key page_number) (recipes_df ex_book))) \<and>
     distinct (map recipe rs) \<and>
     set (map recipe rs) =
       {t. \<exists>p\<in>set ((sort_key page_number) (recipes_df ex_book)).
          map_option title (asof_backward ((sort_key toc_page) (recipes_toc ex_toc)) (page_number p)) = Some t} \<and>
     (\<forall>us a vs b ws. map recipe rs = us @ a # vs @ b # ws \<longrightarrow>
        (\<exists>pre post.
           List.map_filter
             (\<lambda>p. map_option title (asof_backward ((sort_key toc_page) (recipes_toc ex_toc)) (page_number p)))
             ((sort_key page_number) (recipes_df ex_book)) = pre @ b # post \<and>
           b \<notin> set pre \<and> a \<in> set pre)) \<and>
     (\<forall>r\<in>set rs. description r =
        str_join '' '' (map page_text (filter
          (\<lambda>p. map_option title (asof_backward ((sort_key toc_page) (recipes_toc ex_toc)) (page_number p)) =
                Some (recipe r))
          ((sort_key page_number) (recipes_df ex_book))))))"
proof (intro conjI)
  show "sorts_by page_number (sort_key page_number)" by (rule sorts_by_sort_key)
  show "sorts_by toc_page (sort_key toc_page)" by (rule sorts_by_sort_key)
  show "ex_book \<noteq> []" by (rule ex_book_not_Nil)
  show "ex_toc \<noteq> []" by (rule ex_toc_not_Nil)
  show "\<exists>rs. recipes_of_book (sort_key page_number) (sort_key toc_page) ex_book ex_toc = Inr rs \<and>
     sorted (map page_number ((sort_key page_number) (recipes_df ex_book))) \<and>
     distinct (map recipe rs) \<and>
     set (map recipe rs) =
       {t. \<exists>p\<in>set ((sort_key page_number) (recipes_df ex_book)).
          map_option title (asof_backward ((sort_key toc_page) (recipes_toc ex_toc)) (page_number p)) = Some t} \<and>
     (\<forall>us a vs b ws. map recipe rs = us @ a # vs @ b # ws \<longrightarrow>
        (\<exists>pre post.
           List.map_filter
             (\<lambda>p. map_option title (asof_backward ((sort_key toc_page) (recipes_toc ex_toc)) (page_number p)))
             ((sort_key page_number) (recipes_df ex_book)) = pre @ b # post \<and>
           b \<notin> set pre \<and> a \<in> set pre)) \<and>
     (\<forall>r\<in>set rs. description r =
        str_join '' '' (map page_text (filter
          (\<lambda>p. map_option title (asof_backward ((sort_key toc_page) (recipes_toc ex_toc)) (page_number p)) =
                Some (recipe r))
          ((sort_key page_number) (recipes_df ex_book)))))"
    by (rule recipes_first_seen_order [OF sorts_by_sort_key sorts_by_sort_key ex_book_not_Nil ex_toc_not_Nil])
qed

text \<open>
  Claim C4. When two recipe entries of different pages bear the same title, the run
  yields at most one recipe of that title: exactly one when some page of the range gets
  the title, whose description is the texts, joined with one space, of all pages that
  get the title, in ascending page order. The pages matched to either entry are among
  them.
\<close>

theorem duplicate_titles_merge:
  fixes srt_df srt_toc book_df doc_toc e1 e2
  defines "sp \<equiv> srt_df (recipes_df book_df)"
    and "right \<equiv> srt_toc (recipes_toc doc_toc)"
  defines "ps \<equiv> filter (\<lambda>p. map_option title (asof_backward right (page_number p)) = Some (title e1)) sp"
  assumes "sorts_by page_number srt_df" and "sorts_by toc_page srt_toc"
    and "e1 \<in> set doc_toc" and "e2 \<in> set doc_toc" and "level e1 = 2" and "level e2 = 2"
    and "title e1 = title e2" and "toc_page e1 \<noteq> toc_page e2"
    and "book_df \<noteq> []"
  shows "\<exists>rs. recipes_of_book srt_df srt_toc book_df doc_toc = Inr rs \<and>
     filter (\<lambda>r. recipe r = title e1) rs =
       (if ps = [] then []
        else [\<lparr>recipe = title e1, description = str_join '' '' (map page_text ps)\<rparr>]) \<and>
     sorted (map page_number ps) \<and>
     (\<forall>p\<in>set sp. asof_backward right (page_number p) = Some e1 \<or>
                  asof_backward right (page_number p) = Some e2 \<longrightarrow> p \<in> set ps)"
proof -
  let ?tof = "\<lambda>p. map_option title (asof_backward right (page_number p))"
  let ?ks = "first_seen (List.map_filter ?tof sp)"
  let ?mk = "\<lambda>t. \<lparr>recipe = t, description =
      str_join '' '' (map page_text (filter (\<lambda>p. ?tof p = Some t) sp))\<rparr>"
  have eq: "recipes_of_book srt_df srt_toc book_df doc_toc = Inr (map ?mk ?ks)"
    unfolding sp_def right_def using assms(4,5) by (rule recipes_of_book_eq)
  have f: "filter (\<lambda>r. recipe r = title e1) (map ?mk ?ks) = map ?mk (filter (\<lambda>t. t = title e1) ?ks)"
    by (simp add: filter_map comp_def)
  have mem: "title e1 \<in> set ?ks \<longleftrightarrow> ps \<noteq> []"
    by (auto simp: first_seen_set set_map_filter ps_def filter_empty_conv)
  have one: "filter (\<lambda>t. t = title e1) ?ks = (if ps = [] then [] else [title e1])"
  proof (cases "ps = []")
    case True
    with mem have "title e1 \<notin> set ?ks" by simp
    then have "filter (\<lambda>t. t = title e1) ?ks = []" by (auto simp: filter_empty_conv)
    with True show ?thesis by simp
  next
    case False
    with mem have "title e1 \<in> set ?ks" by simp
    moreover have "distinct (map (\<lambda>t. t) ?ks)" by (simp add: first_seen_distinct)
    ultimately have "filter (\<lambda>t. (\<lambda>t. t) t = (\<lambda>t. t) (title e1)) ?ks = [title e1]"
      by (rule distinct_key_filter[rotated])
    with False show ?thesis by simp
  qed
  have r: "filter (\<lambda>r. recipe r = title e1) (map ?mk ?ks) =
       (if ps = [] then []
        else [\<lparr>recipe = title e1, description = str_join '' '' (map page_text ps)\<rparr>])"
    unfolding f one by (simp add: ps_def)
  have "sorted (map page_number sp)"
    unfolding sp_def using assms(4) by (rule sorts_by_sorted)
  then have s: "sorted (map page_number ps)"
    unfolding ps_def by (rule sorted_filter)
  have b: "\<forall>p\<in>set sp. asof_backward right (page_number p) = Some e1 \<or>
                  asof_backward right (page_number p) = Some e2 \<longrightarrow> p \<in> set ps"
    using assms(10) by (auto simp: ps_def)
  show ?thesis using eq r s b by blast
qed

theorem duplicate_titles_merge_witness:
  fixes e1 e2 :: toc_row
  defines "e1 \<equiv> \<lparr>level = 2, title = ''Soup'', toc_page = 23\<rparr>"
    and "e2 \<equiv> \<lparr>level = 2, title = ''Soup'', toc_page = 27\<rparr>"
  shows "sorts_by page_number (sort_key page_number) \<and> sorts_by toc_page (sort_key toc_page) \<and>
   e1 \<in> set dup_toc \<and> e2 \<in> set dup_toc \<and> level e1 = 2 \<and> level e2 = 2 \<and>
   title e1 = title e2 \<and> toc_page e1 \<noteq> toc_page e2 \<and> dup_book \<noteq> [] \<and>
   (\<exists>rs. recipes_of_book (sort_key page_number) (sort_key toc_page) dup_book dup_toc = Inr rs \<and>
     filter (\<lambda>r. recipe r = title e1) rs =
       (if filter (\<lambda>p. map_option title (asof_backward ((sort_key toc_page) (recipes_toc dup_toc)) (page_number p)) =
                       Some (title e1)) ((sort_key page_number) (recipes_df dup_book)) = [] then []
        else [\<lparr>recipe = title e1, description = str_join '' '' (map page_text
                (filter (\<lambda>p. map_option title (asof_backward ((sort_key toc_page) (recipes_toc dup_toc)) (page_number p)) =
                       Some (title e1)) ((sort_key page_number) (recipes_df dup_book))))\<rparr>]) \<and>
     sorted (map page_number
       (filter (\<lambda>p. map_option title (asof_backward ((sort_key toc_page) (recipes_toc dup_toc)) (page_number p)) =
                       Some (title e1)) ((sort_key page_number) (recipes_df dup_book)))) \<and>
     (\<forall>p\<in>set ((sort_key page_number) (recipes_df dup_book)).
        asof_backward ((sort_key toc_page) (recipes_toc dup_toc)) (page_number p) = Some e1 \<or>
        asof_backward ((sort_key toc_page) (recipes_toc dup_toc)) (page_number p) = Some e2 \<longrightarrow>
        p \<in> set (filter (\<lambda>p. map_option title (asof_backward ((sort_key toc_page) (recipes_toc dup_toc)) (page_number p)) =
                       Some (title e1)) ((sort_key page_number) (recipes_df dup_book)))))"
proof -
  have h: "e1 \<in> set dup_toc" "e2 \<in> set dup_toc" "level e1 = 2" "level e2 = 2"
    "title e1 = title e2" "toc_page e1 \<noteq> toc_page e2" "dup_book \<noteq> []"
    by (simp_all add: e1_def e2_def dup_toc_def dup_book_def)
  have "\<exists>rs. recipes_of_book (sort_key page_number) (sort_key toc_page) dup_book dup_toc = Inr rs \<and>
     filter (\<lambda>r. recipe r = title e1) rs =
       (if filter (\<lambda>p. map_option title (asof_backward ((sort_key toc_page) (recipes_toc dup_toc)) (page_number p)) =
                       Some (title e1)) ((sort_key page_number) (recipes_df dup_book)) = [] then []
        else [\<lparr>recipe = title e1, description = str_join '' '' (map page_text
                (filter (\<lambda>p. map_option title (asof_backward ((sort_key toc_page) (recipes_toc dup_toc)) (page_number p)) =
                       Some (title e1)) ((sort_key page_number) (recipes_df dup_book))))\<rparr>]) \<and>
     sorted (map page_number
       (filter (\<lambda>p. map_option title (asof_backward ((sort_key toc_page) (recipes_toc dup_toc)) (page_number p)) =
                       Some (title e1)) ((sort_key page_number) (recipes_df dup_book)))) \<and>
     (\<forall>p\<in>set ((sort_key page_number) (recipes_df dup_book)).
        asof_backward ((sort_key toc_page) (recipes_toc dup_toc)) (page_number p) = Some e1 \<or>
        asof_backward ((sort_key toc_page) (recipes_toc dup_toc)) (page_number p) = Some e2 \<longrightarrow>
        p \<in> set (filter (\<lambda>p. map_option title (asof_backward ((sort_key toc_page) (recipes_toc dup_toc)) (page_number p)) =
                       Some (title e1)) ((sort_key page_number) (recipes_df dup_book))))"
    using sorts_by_sort_key sorts_by_sort_key h by (rule duplicate_titles_merge)
  moreover have "sorts_by page_number (sort_key page_number)" by (rule sorts_by_sort_key)
  moreover have "sorts_by toc_page (sort_key toc_page)" by (rule sorts_by_sort_key)
  ultimately show ?thesis using h by (intro conjI)
qed

section \<open>Properties of the chunking\<close>

subsection \<open>Strings\<close>

lemma strip_Nil [simp]: "strip [] = []"
  by (simp add: strip_def)

lemma length_dropWhile_le': "length (dropWhile P xs) \<le> length xs"
  by (induction xs) auto

lemma length_strip: "length (strip s) \<le> length s"
proof -
  have "length (strip s) = length (dropWhile isspace (rev (dropWhile isspace s)))"
    by (simp add: strip_def)
  also have "\<dots> \<le> length (rev (dropWhile isspace s))" by (rule length_dropWhile_le')
  also have "\<dots> \<le> length s" by (simp add: length_dropWhile_le')
  finally show ?thesis .
qed

lemma strip_id: "s \<noteq> [] \<Longrightarrow> \<not> isspace (hd s) \<Longrightarrow> \<not> isspace (last s) \<Longrightarrow> strip s = s"
proof -
  assume s: "s \<noteq> []" and h: "\<not> isspace (hd s)" and l: "\<not> isspace (last s)"
  from s h have 1: "dropWhile isspace s = s" by (cases s) auto
  from s l have "dropWhile isspace (rev s) = rev s" by (cases "rev s") (auto simp: last_rev hd_rev)
  with 1 show ?thesis by (simp add: strip_def)
qed

lemma re_split_not_Nil [simp]: "re_split sep text \<noteq> []"
  by (induction sep "text" rule: re_split.induct) (auto split: list.splits)

lemma str_join_Cons: "ys \<noteq> [] \<Longrightarrow> str_join sep (x # ys) = x @ sep @ str_join sep ys"
  by (cases ys) auto

lemma re_split_join: "sep \<noteq> [] \<Longrightarrow> str_join sep (re_split sep text) = text"
proof (induction sep "text" rule: re_split.induct)
  case (1 sep)
  then show ?case by simp
next
  case (2 sep c cs)
  show ?case
  proof (cases "take (length sep) (c # cs) = sep")
    case True
    with 2 have "str_join sep (re_split sep (drop (length sep) (c # cs))) = drop (length sep) (c # cs)"
      by simp
    with True 2(3) have "str_join sep (re_split sep (c # cs)) = sep @ drop (length sep) (c # cs)"
      by (simp add: str_join_Cons)
    also have "\<dots> = c # cs" using True by (metis append_take_drop_id)
    finally show ?thesis .
  next
    case False
    with 2 have ih: "str_join sep (re_split sep cs) = cs" by simp
    obtain p ps where r: "re_split sep cs = p # ps" by (cases "re_split sep cs") auto
    from False r have "re_split sep (c # cs) = (c # p) # ps" by simp
    moreover have "str_join sep ((c # p) # ps) = c # str_join sep (p # ps)"
      by (cases ps) auto
    ultimately show ?thesis using ih r by simp
  qed
qed

lemma concat_keep_separator:
  "concat (t0 # map (\<lambda>t. sep @ t) ts) = str_join sep (t0 # ts)"
proof (induction ts arbitrary: t0)
  case Nil
  then show ?case by simp
next
  case (Cons a ts)
  have "concat (t0 # map (\<lambda>t. sep @ t) (a # ts)) = t0 @ sep @ concat (a # map (\<lambda>t. sep @ t) ts)"
    by simp
  also have "\<dots> = t0 @ sep @ str_join sep (a # ts)" by (simp only: Cons.IH)
  finally show ?case by simp
qed

lemma concat_filter_nonempty: "concat (filter (\<lambda>s. s \<noteq> []) xs) = concat xs"
  by (induction xs) auto

lemma concat_split_text_with_regex: "concat (split_text_with_regex text sep) = text"
proof (cases "sep = []")
  case True
  have "concat (map (\<lambda>c. [c]) text) = text" by (induction "text") auto
  with True show ?thesis by (simp add: split_text_with_regex_def concat_filter_nonempty)
next
  case False
  obtain t0 ts where r: "re_split sep text = t0 # ts" by (cases "re_split sep text") auto
  have "concat (t0 # map (\<lambda>t. sep @ t) ts) = text"
    unfolding concat_keep_separator using re_split_join[OF False, of "text"] r by simp
  moreover have "split_text_with_regex text sep = filter (\<lambda>s. s \<noteq> []) (t0 # map (\<lambda>t. sep @ t) ts)"
    using False r by (simp add: split_text_with_regex_def)
  ultimately show ?thesis by (simp only: concat_filter_nonempty)
qed

lemma split_text_with_regex_nonempty: "s \<in> set (split_text_with_regex text sep) \<Longrightarrow> s \<noteq> []"
  by (simp add: split_text_with_regex_def)

lemma split_text_with_regex_chars:
  "s \<in> set (split_text_with_regex text []) \<Longrightarrow> length s = 1"
  by (auto simp: split_text_with_regex_def)

subsection \<open>Covers\<close>

lemma trimmed_Nil [simp]: "trimmed [] = []"
  by (simp add: trimmed_def)

lemma trimmed_Cons: "trimmed (rk # rks) = take (length (fst rk) - snd rk) (fst rk) @ trimmed rks"
  by (simp add: trimmed_def)

lemma trimmed_append: "trimmed (a @ b) = trimmed a @ trimmed b"
  by (simp add: trimmed_def)

lemma stripped_Nil [simp]: "stripped [] = []"
  by (simp add: stripped_def)

lemma stripped_Cons:
  "stripped (rk # rks) = (if strip (fst rk) = [] then [] else [strip (fst rk)]) @ stripped rks"
  by (simp add: stripped_def)

lemma stripped_append: "stripped (a @ b) = stripped a @ stripped b"
  by (simp add: stripped_def)

lemma bounded_Nil [simp]: "bounded cs co []"
  by (simp add: bounded_def)

lemma bounded_Cons:
  "bounded cs co (rk # rks) \<longleftrightarrow>
   int (length (fst rk)) \<le> cs \<and> int (snd rk) \<le> co \<and> bounded cs co rks"
  by (simp add: bounded_def)

lemma bounded_append: "bounded cs co (a @ b) \<longleftrightarrow> bounded cs co a \<and> bounded cs co b"
  by (simp add: bounded_def)

lemma overlaps_ok_last: "overlaps_ok rks \<Longrightarrow> rks \<noteq> [] \<Longrightarrow> snd (last rks) = 0"
  by (induction rks rule: overlaps_ok.induct) auto

lemma overlaps_ok_append: "overlaps_ok a \<Longrightarrow> overlaps_ok b \<Longrightarrow> overlaps_ok (a @ b)"
proof (induction a rule: overlaps_ok.induct)
  case 1
  then show ?case by simp
next
  case (2 rk)
  then show ?case by (cases b) auto
next
  case (3 rk rk' rks)
  then show ?case by simp
qed

subsection \<open>Merging with the empty separator\<close>

lemma str_join_Nil_sep: "str_join [] xs = concat xs"
  by (induction "[] :: string" xs rule: str_join.induct) auto

lemma join_docs_empty_sep:
  "append_doc acc (join_docs cur []) = acc @ stripped [(concat cur, 0)]"
  by (simp add: append_doc_def join_docs_def str_join_Nil_sep stripped_def Let_def)

lemma pop_front_ok:
  assumes "0 \<le> co"
  shows "\<exists>popped cur'.
     pop_front cs co 0 len (int (length (concat cur))) cur = Inr (int (length (concat cur')), cur') \<and>
     cur = popped @ cur' \<and> int (length (concat cur')) \<le> co \<and>
     (int (length (concat cur')) + len \<le> cs \<or> concat cur' = [])"
proof (induction cur)
  case Nil
  have "pop_front cs co 0 len (int (length (concat ([] :: string list)))) [] = Inr (int (length (concat ([] :: string list))), [])"
    using assms by simp
  then show ?case using assms by (intro exI[of _ "[]"]) simp
next
  case (Cons d ds)
  let ?tot = "int (length (concat (d # ds)))"
  show ?case
  proof (cases "?tot > co \<or> (?tot + len + 0 > cs \<and> ?tot > 0)")
    case True
    then have "pop_front cs co 0 len ?tot (d # ds) = pop_front cs co 0 len (int (length (concat ds))) ds"
      by auto
    moreover from Cons.IH obtain popped cur' where
      "pop_front cs co 0 len (int (length (concat ds))) ds = Inr (int (length (concat cur')), cur')"
      "ds = popped @ cur'" "int (length (concat cur')) \<le> co"
      "int (length (concat cur')) + len \<le> cs \<or> concat cur' = []" by blast
    ultimately have "pop_front cs co 0 len ?tot (d # ds) = Inr (int (length (concat cur')), cur') \<and>
      d # ds = (d # popped) @ cur' \<and> int (length (concat cur')) \<le> co \<and>
      (int (length (concat cur')) + len \<le> cs \<or> concat cur' = [])" by simp
    then show ?thesis by blast
  next
    case False
    then have "pop_front cs co 0 len ?tot (d # ds) = Inr (?tot, d # ds)" by auto
    moreover have "?tot \<le> 0 \<Longrightarrow> concat (d # ds) = []"
      by (metis length_0_conv of_nat_le_0_iff)
    with False have "?tot \<le> co" "?tot + len \<le> cs \<or> concat (d # ds) = []"
      by (simp_all only: de_Morgan_disj de_Morgan_conj not_less add_0_right) blast
    ultimately have "pop_front cs co 0 len ?tot (d # ds) = Inr (?tot, d # ds) \<and>
      d # ds = [] @ (d # ds) \<and> ?tot \<le> co \<and> (?tot + len \<le> cs \<or> concat (d # ds) = [])" by simp
    then show ?thesis by blast
  qed
qed

lemma merge_step_emit:
  assumes "0 \<le> co" and "int (length (concat cur)) + int (length d) > cs" and "cur \<noteq> []"
  shows "\<exists>popped cur'. cur = popped @ cur' \<and> int (length (concat cur')) \<le> co \<and>
     (int (length (concat cur')) + int (length d) \<le> cs \<or> concat cur' = []) \<and>
     merge_step cs co [] d (acc, cur, int (length (concat cur))) =
       Inr (acc @ stripped [(concat cur, length (concat cur'))], cur' @ [d],
            int (length (concat (cur' @ [d]))))"
proof -
  from pop_front_ok[OF assms(1), where cs=cs and len="int (length d)" and cur=cur] obtain popped cur' where
    p: "pop_front cs co 0 (int (length d)) (int (length (concat cur))) cur =
          Inr (int (length (concat cur')), cur')"
    and c: "cur = popped @ cur'" "int (length (concat cur')) \<le> co"
      "int (length (concat cur')) + int (length d) \<le> cs \<or> concat cur' = []" by blast
  have s: "stripped [(concat cur, length (concat cur'))] = stripped [(concat cur, 0)]"
    by (simp add: stripped_def)
  have "merge_step cs co [] d (acc, cur, int (length (concat cur))) =
       Inr (acc @ stripped [(concat cur, length (concat cur'))], cur' @ [d],
            int (length (concat (cur' @ [d]))))"
    using assms(2,3) by (simp add: merge_step_def p join_docs_empty_sep s)
  with c show ?thesis by blast
qed

lemma merge_step_keep:
  assumes "\<not> (int (length (concat cur)) + int (length d) > cs \<and> cur \<noteq> [])"
  shows "merge_step cs co [] d (acc, cur, int (length (concat cur))) =
       Inr (acc, cur @ [d], int (length (concat (cur @ [d]))))"
  using assms by (auto simp: merge_step_def Let_def)

lemma merge_loop_cover:
  assumes "0 \<le> co"
  shows "\<forall>d\<in>set ds. int (length d) < cs \<Longrightarrow> int (length (concat cur)) \<le> cs \<Longrightarrow>
     \<exists>rks. merge_loop cs co [] ds (acc, cur, int (length (concat cur))) = Inr (acc @ stripped rks) \<and>
       trimmed rks = concat cur @ concat ds \<and> rks \<noteq> [] \<and>
       (\<exists>rest. fst (hd rks) = concat cur @ rest) \<and> overlaps_ok rks \<and> bounded cs co rks"
proof (induction ds arbitrary: acc cur)
  case Nil
  let ?rks = "[(concat cur, 0::nat)]"
  have "merge_loop cs co [] [] (acc, cur, int (length (concat cur))) = Inr (acc @ stripped ?rks)"
    by (simp add: join_docs_empty_sep)
  moreover have "trimmed ?rks = concat cur @ concat []" by (simp add: trimmed_def)
  moreover have "bounded cs co ?rks" using Nil assms by (simp add: bounded_def)
  ultimately show ?case by (intro exI[of _ ?rks]) simp
next
  case (Cons d ds)
  from Cons.prems have small: "\<forall>d\<in>set ds. int (length d) < cs" and d: "int (length d) < cs"
    by simp_all
  show ?case
  proof (cases "int (length (concat cur)) + int (length d) > cs \<and> cur \<noteq> []")
    case True
    from True merge_step_emit[OF assms, where cur=cur and d=d and cs=cs and acc=acc] obtain popped cur' where
      c: "cur = popped @ cur'" "int (length (concat cur')) \<le> co"
        "int (length (concat cur')) + int (length d) \<le> cs \<or> concat cur' = []"
      and st: "merge_step cs co [] d (acc, cur, int (length (concat cur))) =
         Inr (acc @ stripped [(concat cur, length (concat cur'))], cur' @ [d],
              int (length (concat (cur' @ [d]))))" by blast
    from c(3) d have "int (length (concat cur')) + int (length d) \<le> cs"
      by (elim disjE) (simp_all del: concat_eq_Nil_conv)
    then have fit: "int (length (concat (cur' @ [d]))) \<le> cs" by simp
    from Cons.IH[OF small fit, where acc="acc @ stripped [(concat cur, length (concat cur'))]"]
    obtain rks rest where
      r: "merge_loop cs co [] ds (acc @ stripped [(concat cur, length (concat cur'))], cur' @ [d],
            int (length (concat (cur' @ [d])))) =
          Inr ((acc @ stripped [(concat cur, length (concat cur'))]) @ stripped rks)"
      "trimmed rks = concat (cur' @ [d]) @ concat ds" "rks \<noteq> []"
      "fst (hd rks) = concat (cur' @ [d]) @ rest" "overlaps_ok rks" "bounded cs co rks"
      by blast
    let ?rk = "(concat cur, length (concat cur'))"
    have 1: "merge_loop cs co [] (d # ds) (acc, cur, int (length (concat cur))) =
        Inr (acc @ stripped (?rk # rks))"
      using st r(1) by (simp add: stripped_def)
    have 2: "trimmed (?rk # rks) = concat cur @ concat (d # ds)"
      by (simp add: trimmed_Cons r(2) c(1))
    obtain rk' rks' where rks: "rks = rk' # rks'" using r(3) by (cases rks) auto
    with r(4) have "take (length (concat cur')) (fst rk') = concat cur'" by simp
    moreover have "drop (length (concat cur) - length (concat cur')) (concat cur) = concat cur'"
      by (simp add: c(1))
    ultimately have 3: "overlaps_ok (?rk # rks)" using r(5) rks c(1) by simp
    have 4: "bounded cs co (?rk # rks)"
      using r(6) c(2) Cons.prems(2) by (simp add: bounded_Cons)
    have 5: "\<exists>rest. fst (hd (?rk # rks)) = concat cur @ rest" by simp
    show ?thesis using 1 2 3 4 5 by blast
  next
    case False
    then have st: "merge_step cs co [] d (acc, cur, int (length (concat cur))) =
       Inr (acc, cur @ [d], int (length (concat (cur @ [d]))))"
      by (rule merge_step_keep)
    from False d Cons.prems(2) have fit: "int (length (concat (cur @ [d]))) \<le> cs" by auto
    from Cons.IH[OF small fit, where acc=acc] obtain rks rest where
      r: "merge_loop cs co [] ds (acc, cur @ [d], int (length (concat (cur @ [d])))) =
          Inr (acc @ stripped rks)"
      "trimmed rks = concat (cur @ [d]) @ concat ds" "rks \<noteq> []"
      "fst (hd rks) = concat (cur @ [d]) @ rest" "overlaps_ok rks" "bounded cs co rks"
      by blast
    have 1: "merge_loop cs co [] (d # ds) (acc, cur, int (length (concat cur))) = Inr (acc @ stripped rks)"
      using st r(1) by simp
    have 2: "trimmed rks = concat cur @ concat (d # ds)" using r(2) by simp
    have 5: "\<exists>rest. fst (hd rks) = concat cur @ rest" using r(4) by simp
    show ?thesis using 1 2 5 r(3,5,6) by blast
  qed
qed

lemma merge_splits_cover:
  assumes "0 \<le> co" and "0 \<le> cs" and "\<forall>d\<in>set good. int (length d) < cs"
  shows "\<exists>rks. merge_splits cs co good [] = Inr (stripped rks) \<and>
       trimmed rks = concat good \<and> overlaps_ok rks \<and> bounded cs co rks"
proof -
  have "int (length (concat ([] :: string list))) \<le> cs" using assms(2) by simp
  from merge_loop_cover[OF assms(1,3) this, where acc="[]"] show ?thesis
    by (auto simp: merge_splits_def)
qed

lemma merge_loop_fit:
  "int (length (concat (cur @ ds))) \<le> cs \<Longrightarrow>
   merge_loop cs co [] ds (acc, cur, int (length (concat cur))) =
     Inr (acc @ stripped [(concat (cur @ ds), 0)])"
proof (induction ds arbitrary: cur)
  case Nil
  then show ?case by (simp add: join_docs_empty_sep)
next
  case (Cons d ds)
  from Cons.prems have "\<not> (int (length (concat cur)) + int (length d) > cs \<and> cur \<noteq> [])"
    by simp
  then have "merge_step cs co [] d (acc, cur, int (length (concat cur))) =
       Inr (acc, cur @ [d], int (length (concat (cur @ [d]))))"
    by (rule merge_step_keep)
  moreover from Cons.prems have "int (length (concat ((cur @ [d]) @ ds))) \<le> cs" by simp
  from Cons.IH[OF this] have "merge_loop cs co [] ds (acc, cur @ [d], int (length (concat (cur @ [d])))) =
     Inr (acc @ stripped [(concat (cur @ d # ds), 0)])" by simp
  ultimately show ?case by simp
qed

lemma merge_splits_fit:
  "int (length (concat good)) \<le> cs \<Longrightarrow>
   merge_splits cs co good [] = Inr (stripped [(concat good, 0)])"
  using merge_loop_fit[where cur="[]" and ds=good and cs=cs and co=co and acc="[]"] by (simp add: merge_splits_def)

subsection \<open>The recursive split\<close>


lemma pick_separator_good:
  "seps \<noteq> [] \<Longrightarrow> last seps = [] \<Longrightarrow>
   \<exists>s ns. pick_separator seps t = Some (s, ns) \<and> length ns < length seps \<and>
     ((s = [] \<and> ns = []) \<or> (s \<noteq> [] \<and> ns \<noteq> [] \<and> last ns = []))"
proof (induction seps)
  case Nil
  then show ?case by simp
next
  case (Cons a seps)
  show ?case
  proof (cases "a = []")
    case True
    then show ?thesis by simp
  next
    case False
    with Cons.prems have ne: "seps \<noteq> []" and l: "last seps = []" by (auto split: if_splits)
    show ?thesis
    proof (cases "re_search a t")
      case True
      with False ne l show ?thesis by simp
    next
      case no: False
      from Cons.IH[OF ne l] obtain s ns where
        "pick_separator seps t = Some (s, ns)" "length ns < length seps"
        "(s = [] \<and> ns = []) \<or> (s \<noteq> [] \<and> ns \<noteq> [] \<and> last ns = [])" by blast
      with False no show ?thesis by auto
    qed
  qed
qed

lemma split_text_rec_unfold:
  "pick_separator seps t = Some (s, ns) \<Longrightarrow> seps \<noteq> [] \<Longrightarrow>
   split_text_rec cs co seps t = split_loop cs co ns (split_text_with_regex t s) [] []"
  by (simp add: split_text_rec.simps[of cs co seps t])

lemma split_loop_cover:
  assumes co: "0 \<le> co" and cs: "1 < cs"
    and rec: "ns \<noteq> [] \<Longrightarrow> \<forall>s. \<exists>rks. split_text_rec cs co ns s = Inr (stripped rks) \<and>
                trimmed rks = s \<and> overlaps_ok rks \<and> bounded cs co rks"
  shows "(ns = [] \<Longrightarrow> \<forall>s\<in>set ss. int (length s) < cs) \<Longrightarrow> \<forall>g\<in>set good. int (length g) < cs \<Longrightarrow>
     \<exists>rks. split_loop cs co ns ss good final = Inr (final @ stripped rks) \<and>
       trimmed rks = concat good @ concat ss \<and> overlaps_ok rks \<and> bounded cs co rks"
proof (induction ss arbitrary: good final)
  case Nil
  show ?case
  proof (cases "good = []")
    case True
    then have "split_loop cs co ns [] good final = Inr (final @ stripped []) \<and>
       trimmed [] = concat good @ concat [] \<and> overlaps_ok [] \<and> bounded cs co []" by simp
    then show ?thesis by blast
  next
    case False
    from cs have "0 \<le> cs" by simp
    from merge_splits_cover[OF co this Nil.prems(2)] obtain rks where
      "merge_splits cs co good [] = Inr (stripped rks)" "trimmed rks = concat good"
      "overlaps_ok rks" "bounded cs co rks" by blast
    with False have "split_loop cs co ns [] good final = Inr (final @ stripped rks) \<and>
       trimmed rks = concat good @ concat [] \<and> overlaps_ok rks \<and> bounded cs co rks" by simp
    then show ?thesis by blast
  qed
next
  case (Cons s ss)
  from Cons.prems(1) have small: "ns = [] \<Longrightarrow> \<forall>s\<in>set ss. int (length s) < cs" by simp
  show ?case
  proof (cases "int (length s) < cs")
    case True
    with Cons.prems(2) have "\<forall>g\<in>set (good @ [s]). int (length g) < cs" by simp
    from Cons.IH[OF small this, where final=final] obtain rks where
      "split_loop cs co ns ss (good @ [s]) final = Inr (final @ stripped rks)"
      "trimmed rks = concat (good @ [s]) @ concat ss" "overlaps_ok rks" "bounded cs co rks"
      by blast
    with True have "split_loop cs co ns (s # ss) good final = Inr (final @ stripped rks) \<and>
       trimmed rks = concat good @ concat (s # ss) \<and> overlaps_ok rks \<and> bounded cs co rks" by simp
    then show ?thesis by blast
  next
    case False
    with Cons.prems(1) have ns: "ns \<noteq> []" by auto
    from cs have cs0: "0 \<le> cs" by simp
    obtain rks1 where m: "(if good \<noteq> [] then
                 (case merge_splits cs co good [] of
                    Inl e \<Rightarrow> Inl e
                  | Inr merged_text \<Rightarrow> Inr (final @ merged_text))
               else Inr final) = Inr (final @ stripped rks1)"
      and r1: "trimmed rks1 = concat good" "overlaps_ok rks1" "bounded cs co rks1"
    proof (cases "good = []")
      case True
      then have "(if good \<noteq> [] then
                 (case merge_splits cs co good [] of
                    Inl e \<Rightarrow> Inl e
                  | Inr merged_text \<Rightarrow> Inr (final @ merged_text))
               else Inr final) = Inr (final @ stripped [])" by simp
      moreover have "trimmed [] = concat good" "overlaps_ok []" "bounded cs co []"
        using True by simp_all
      ultimately show ?thesis by (rule that)
    next
      case g: False
      from merge_splits_cover[OF co cs0 Cons.prems(2)] obtain rks where
        r: "merge_splits cs co good [] = Inr (stripped rks)" "trimmed rks = concat good"
        "overlaps_ok rks" "bounded cs co rks" by blast
      from g r(1) have "(if good \<noteq> [] then
                 (case merge_splits cs co good [] of
                    Inl e \<Rightarrow> Inl e
                  | Inr merged_text \<Rightarrow> Inr (final @ merged_text))
               else Inr final) = Inr (final @ stripped rks)" by simp
      then show ?thesis using r(2,3,4) by (rule that)
    qed
    from rec[OF ns] obtain rks2 where
      r2: "split_text_rec cs co ns s = Inr (stripped rks2)" "trimmed rks2 = s"
      "overlaps_ok rks2" "bounded cs co rks2" by blast
    have "\<forall>g\<in>set ([] :: string list). int (length g) < cs" by simp
    from Cons.IH[OF small this, where final="final @ stripped rks1 @ stripped rks2"] obtain rks3 where
      r3: "split_loop cs co ns ss [] (final @ stripped rks1 @ stripped rks2) =
            Inr (final @ stripped rks1 @ stripped rks2 @ stripped rks3)"
      "trimmed rks3 = concat [] @ concat ss" "overlaps_ok rks3" "bounded cs co rks3"
      by auto
    let ?rks = "rks1 @ rks2 @ rks3"
    have "split_loop cs co ns (s # ss) good final = Inr (final @ stripped ?rks)"
      using False ns by (simp add: m r2(1) r3(1) stripped_append del: split_loop.simps(1))
    moreover have "trimmed ?rks = concat good @ concat (s # ss)"
      using r1(1) r2(2) r3(2) by (simp add: trimmed_append)
    moreover have "overlaps_ok ?rks"
      using r1(2) r2(3) r3(3) by (intro overlaps_ok_append)
    moreover have "bounded cs co ?rks"
      using r1(3) r2(4) r3(4) by (simp add: bounded_append)
    ultimately show ?thesis by blast
  qed
qed

lemma split_text_rec_cover:
  assumes co: "0 \<le> co" and cs: "1 < cs"
  shows "seps \<noteq> [] \<Longrightarrow> last seps = [] \<Longrightarrow>
     \<exists>rks. split_text_rec cs co seps t = Inr (stripped rks) \<and>
       trimmed rks = t \<and> overlaps_ok rks \<and> bounded cs co rks"
proof (induction "length seps" arbitrary: seps t rule: less_induct)
  case less
  from pick_separator_good[OF less.prems, of t] obtain s ns where
    p: "pick_separator seps t = Some (s, ns)" and len: "length ns < length seps"
    and g: "(s = [] \<and> ns = []) \<or> (s \<noteq> [] \<and> ns \<noteq> [] \<and> last ns = [])" by blast
  have rec: "ns \<noteq> [] \<Longrightarrow> \<forall>u. \<exists>rks. split_text_rec cs co ns u = Inr (stripped rks) \<and>
                trimmed rks = u \<and> overlaps_ok rks \<and> bounded cs co rks"
    using less.hyps[OF len] g by blast
  have small: "ns = [] \<Longrightarrow> \<forall>x\<in>set (split_text_with_regex t s). int (length x) < cs"
    using g cs by (auto dest: split_text_with_regex_chars)
  have "\<forall>g\<in>set ([] :: string list). int (length g) < cs" by simp
  from split_loop_cover[OF co cs rec small this, where final="[]"] obtain rks where
    "split_loop cs co ns (split_text_with_regex t s) [] [] = Inr ([] @ stripped rks)"
    "trimmed rks = concat [] @ concat (split_text_with_regex t s)"
    "overlaps_ok rks" "bounded cs co rks" by blast
  then have "split_text_rec cs co seps t = Inr (stripped rks) \<and>
       trimmed rks = t \<and> overlaps_ok rks \<and> bounded cs co rks"
    using split_text_rec_unfold[OF p less.prems(1)] by (simp add: concat_split_text_with_regex)
  then show ?case by blast
qed

subsection \<open>Texts that fit into one chunk\<close>

lemma split_loop_small:
  "\<forall>s\<in>set ss. int (length s) < cs \<Longrightarrow>
   split_loop cs co ns ss good final =
     (if good @ ss = [] then Inr final
      else (case merge_splits cs co (good @ ss) [] of
              Inl e \<Rightarrow> Inl e
            | Inr merged_text \<Rightarrow> Inr (final @ merged_text)))"
  by (induction ss arbitrary: good) auto

lemma single_big:
  assumes "\<forall>x\<in>set xs. x \<noteq> []" and "s \<in> set xs" and "length (concat xs) \<le> length s"
  shows "xs = [s]"
proof -
  from split_list[OF assms(2)] obtain a b where xs: "xs = a @ s # b" by blast
  with assms(3) have "concat a = []" "concat b = []" by simp_all
  with assms(1) xs have "a = []" "b = []" by auto
  with xs show ?thesis by simp
qed

lemma split_text_rec_short:
  assumes cs: "1 < cs"
  shows "seps \<noteq> [] \<Longrightarrow> last seps = [] \<Longrightarrow> int (length t) \<le> cs \<Longrightarrow>
     split_text_rec cs co seps t = Inr (stripped [(t, 0)])"
proof (induction "length seps" arbitrary: seps rule: less_induct)
  case less
  from pick_separator_good[OF less.prems(1,2), of t] obtain s ns where
    p: "pick_separator seps t = Some (s, ns)" and len: "length ns < length seps"
    and g: "(s = [] \<and> ns = []) \<or> (s \<noteq> [] \<and> ns \<noteq> [] \<and> last ns = [])" by blast
  let ?ss = "split_text_with_regex t s"
  have u: "split_text_rec cs co seps t = split_loop cs co ns ?ss [] []"
    using p less.prems(1) by (rule split_text_rec_unfold)
  have c: "concat ?ss = t" by (rule concat_split_text_with_regex)
  show ?case
  proof (cases "\<forall>x\<in>set ?ss. int (length x) < cs")
    case True
    show ?thesis
    proof (cases "?ss = []")
      case e: True
      with c have "t = []" by simp
      with e u show ?thesis by (simp add: stripped_def)
    next
      case False
      from less.prems(3) c have "int (length (concat ?ss)) \<le> cs" by simp
      from merge_splits_fit[OF this] c have "merge_splits cs co ?ss [] = Inr (stripped [(t, 0)])"
        by simp
      with u False show ?thesis by (simp add: split_loop_small[OF True])
    qed
  next
    case False
    then obtain x where x: "x \<in> set ?ss" "cs \<le> int (length x)" by auto
    have "\<forall>y\<in>set ?ss. y \<noteq> []" by (auto dest: split_text_with_regex_nonempty)
    moreover from x(2) less.prems(3) c have "length (concat ?ss) \<le> length x" by simp
    ultimately have ss: "?ss = [x]" using x(1) by (intro single_big)
    with c have xt: "x = t" by simp
    have "s \<noteq> []"
    proof
      assume "s = []"
      with x(1) have "length x = 1" by (auto dest: split_text_with_regex_chars)
      with x(2) cs show False by simp
    qed
    with g have ns: "ns \<noteq> []" "last ns = []" by auto
    from less.hyps[OF len ns less.prems(3)]
    have "split_text_rec cs co ns t = Inr (stripped [(t, 0)])" .
    with u ss xt x(2) ns(1) show ?thesis by simp
  qed
qed

subsection \<open>The splitter of the notebook\<close>

lemma separators_good: "separators \<noteq> [] \<and> last separators = []"
  by (simp add: separators_def)

lemma stripped_single: "stripped [(t, k)] = (if strip t = [] then [] else [strip t])"
  by (simp add: stripped_def)

lemma stripped_member: "c \<in> set (stripped rks) \<Longrightarrow> \<exists>rk\<in>set rks. c = strip (fst rk) \<and> c \<noteq> []"
  by (auto simp: stripped_def)

lemma bounded_member: "bounded cs co rks \<Longrightarrow> rk \<in> set rks \<Longrightarrow> int (length (fst rk)) \<le> cs \<and> int (snd rk) \<le> co"
  by (auto simp: bounded_def list_all_iff)

lemma splitter_bounded:
  "\<exists>chunks. splitter t = Inr chunks \<and> (\<forall>c\<in>set chunks. c \<noteq> [] \<and> length c \<le> 1000)"
proof -
  from split_text_rec_cover[of 100 1000 separators t] separators_good obtain rks where
    r: "splitter t = Inr (stripped rks)" and b: "bounded 1000 100 rks"
    by (auto simp: splitter_def split_text_def)
  have "c \<noteq> [] \<and> length c \<le> 1000" if "c \<in> set (stripped rks)" for c
  proof -
    from stripped_member[OF that] obtain rk where rk: "rk \<in> set rks" "c = strip (fst rk)" "c \<noteq> []"
      by blast
    from bounded_member[OF b rk(1)] have "length (fst rk) \<le> 1000" by simp
    with length_strip[of "fst rk"] rk(2,3) show ?thesis by simp
  qed
  with r show ?thesis by blast
qed

subsection \<open>The long description, step by step\<close>

lemma re_search_absent: "c \<notin> set t \<Longrightarrow> \<not> re_search (c # sep) t"
  by (induction t) (auto simp: take_Cons')

lemma re_search_present: "re_search sep (xs @ sep @ ys)"
proof (induction xs)
  case Nil
  show ?case
  proof (cases "sep @ ys")
    case Nil
    then show ?thesis by simp
  next
    case (Cons a list)
    have "take (length sep) (sep @ ys) = sep" by simp
    then show ?thesis unfolding Cons by simp
  qed
next
  case (Cons x xs)
  then show ?case by simp
qed

lemma re_split_absent: "c \<notin> set xs \<Longrightarrow> re_split (c # sep) xs = [xs]"
  by (induction xs) (auto simp: take_Cons')

lemma re_split_first:
  "c \<notin> set xs \<Longrightarrow> re_split (c # sep) (xs @ (c # sep) @ ys) = xs # re_split (c # sep) ys"
  by (induction xs) (auto simp: take_Cons')

lemma strip_leading: "isspace c \<Longrightarrow> strip (c # s) = strip s"
  by (simp add: strip_def)

lemma pick_long_text: "pick_separator separators long_text = Some ('' '', [[]])"
proof -
  have "CHR 0x0A \<notin> set long_text" by (simp add: long_text_def)
  then have "\<not> re_search [CHR 0x0A, CHR 0x0A] long_text" "\<not> re_search [CHR 0x0A] long_text"
    by (simp_all add: re_search_absent)
  moreover have "re_search '' '' long_text"
    unfolding long_text_def by (rule re_search_present)
  ultimately show ?thesis by (simp add: separators_def)
qed

lemma splits_long_text:
  "split_text_with_regex long_text '' '' =
     [replicate 600 CHR ''a'' @ ''.'', '' '' @ replicate 300 CHR ''b'', '' '' @ replicate 300 CHR ''c'']"
proof -
  have "re_split '' '' long_text =
      (replicate 600 CHR ''a'' @ ''.'') # re_split '' '' (replicate 300 CHR ''b'' @ '' '' @ replicate 300 CHR ''c'')"
    unfolding long_text_def by (rule re_split_first) simp
  also have "re_split '' '' (replicate 300 CHR ''b'' @ '' '' @ replicate 300 CHR ''c'') =
      replicate 300 CHR ''b'' # re_split '' '' (replicate 300 CHR ''c'')"
    by (rule re_split_first) simp
  also have "re_split '' '' (replicate 300 CHR ''c'') = [replicate 300 CHR ''c'']"
    by (rule re_split_absent) simp
  finally show ?thesis by (simp add: split_text_with_regex_def)
qed

lemma strip_chunk1:
  "strip (replicate 600 CHR ''a'' @ ''. '' @ replicate 300 CHR ''b'') =
     replicate 600 CHR ''a'' @ ''. '' @ replicate 300 CHR ''b''"
  by (rule strip_id) (simp_all add: isspace_def hd_append last_replicate)

lemma strip_chunk2: "strip ('' '' @ replicate 300 CHR ''c'') = replicate 300 CHR ''c''"
proof -
  have "strip (replicate 300 CHR ''c'') = replicate 300 CHR ''c''"
    by (rule strip_id) (simp_all add: isspace_def last_replicate)
  then show ?thesis by (simp add: strip_leading isspace_def)
qed

lemma merge_long_text:
  "merge_splits 1000 100
     [replicate 600 CHR ''a'' @ ''.'', '' '' @ replicate 300 CHR ''b'', '' '' @ replicate 300 CHR ''c''] [] =
   Inr [replicate 600 CHR ''a'' @ ''. '' @ replicate 300 CHR ''b'', replicate 300 CHR ''c'']"
  using strip_chunk1 strip_chunk2
  by (simp add: merge_splits_def merge_step_def Let_def join_docs_def append_doc_def)

lemma splitter_long_text:
  "splitter long_text =
     Inr [replicate 600 CHR ''a'' @ ''. '' @ replicate 300 CHR ''b'', replicate 300 CHR ''c'']"
proof -
  have "splitter long_text = split_loop 1000 100 [[]] (split_text_with_regex long_text '' '') [] []"
    unfolding splitter_def split_text_def
    by (rule split_text_rec_unfold[OF pick_long_text]) (simp add: separators_def)
  also have "\<dots> = Inr [replicate 600 CHR ''a'' @ ''. '' @ replicate 300 CHR ''b'', replicate 300 CHR ''c'']"
    unfolding splits_long_text using merge_long_text by (subst split_loop_small) simp_all
  finally show ?thesis .
qed

subsection \<open>The separator in use\<close>

lemma re_search_Nil [simp]: "re_search [] t"
  by (cases t) auto






section \<open>The claims on the chunking\<close>

text \<open>
  Claim C5, amended. The chunks of a description cover it: there are pieces, each at
  most 1000 characters long, such that the chunks are the pieces stripped of the
  whitespace at their ends (a piece of whitespace only gives no chunk), and the pieces
  put together give back the description exactly once each piece but the last has lost
  the characters at its end that the next piece repeats. These are at most 100
  characters, and may be fewer or none: a fixed cut of 100 characters does not give
  the description back.
\<close>

theorem chunks_cover_description:
  "\<exists>rks. splitter t = Inr (stripped rks) \<and> trimmed rks = t \<and> overlaps_ok rks \<and>
     bounded 1000 100 rks"
  using split_text_rec_cover[of 100 1000 separators t] separators_good
  by (simp add: splitter_def split_text_def)

theorem chunks_cover_description_witness:
  "\<exists>rks. splitter long_text = Inr (stripped rks) \<and> trimmed rks = long_text \<and> overlaps_ok rks \<and>
     bounded 1000 100 rks"
  by (rule chunks_cover_description)

text \<open>
  Claim C5 as stated fails on the long description: its 1203 characters give two chunks
  that share nothing, and with the last 100 characters of the first chunk removed the
  two make 1102 characters, a hundred letters \<open>b\<close> short of the description.
\<close>

theorem fixed_overlap_loses_text:
  "length long_text = 1203 \<and>
   splitter long_text = Inr [replicate 600 CHR ''a'' @ ''. '' @ replicate 300 CHR ''b'', replicate 300 CHR ''c''] \<and>
   take (length (replicate 600 CHR ''a'' @ ''. '' @ replicate 300 CHR ''b'') - 100) (replicate 600 CHR ''a'' @ ''. '' @ replicate 300 CHR ''b'') @ replicate 300 CHR ''c'' =
     replicate 600 CHR ''a'' @ ''. '' @ replicate 200 CHR ''b'' @ replicate 300 CHR ''c'' \<and>
   length (replicate 600 CHR ''a'' @ ''. '' @ replicate 200 CHR ''b'' @ replicate 300 CHR ''c'') = 1102"
  using splitter_long_text by (simp add: long_text_def)

text \<open>
  Claim C6, amended. A description of at most 1000 characters gives its text without
  the whitespace at both ends as the only chunk, and no chunk when nothing is left (the
  description is empty or whitespace only). So the chunk is the description itself
  when the description is not empty and neither begins nor ends with whitespace.
\<close>

theorem short_description_one_chunk:
  "int (length t) \<le> 1000 \<Longrightarrow>
   splitter t = Inr (if strip t = [] then [] else [strip t])"
  using split_text_rec_short[of 1000 separators t 100] separators_good
  by (simp add: splitter_def split_text_def stripped_single)

theorem short_description_one_chunk_witness:
  "int (length ''Soup'') \<le> 1000 \<and> splitter ''Soup'' = Inr [''Soup'']"
  using short_description_one_chunk [of "''Soup''"] by (simp add: strip_def isspace_def)

text \<open>
  Claim C6 as stated fails: two pages, the first without text, join to a description
  that begins with a space, and its only chunk is not the description.
\<close>

theorem leading_space_not_kept:
  "str_join '' '' [[], ''Soup''] = '' Soup'' \<and> int (length '' Soup'') \<le> 1000 \<and>
   splitter '' Soup'' = Inr [''Soup'']"
  by code_simp

text \<open>
  Claim C7. For every description the split returns normally, and every chunk is not
  empty and at most 1000 characters long; so is the content of every document that cell
  11 builds.
\<close>

theorem chunks_bounded_nonempty:
  "(\<exists>chunks. splitter t = Inr chunks \<and> (\<forall>c\<in>set chunks. c \<noteq> [] \<and> length c \<le> 1000)) \<and>
   (\<exists>ds. docs rows = Inr ds \<and>
      (\<forall>d\<in>set ds. page_content d \<noteq> [] \<and> length (page_content d) \<le> 1000))"
proof
  show "\<exists>chunks. splitter t = Inr chunks \<and> (\<forall>c\<in>set chunks. c \<noteq> [] \<and> length c \<le> 1000)"
    by (rule splitter_bounded)
  show "\<exists>ds. docs rows = Inr ds \<and>
      (\<forall>d\<in>set ds. page_content d \<noteq> [] \<and> length (page_content d) \<le> 1000)"
  proof (induction rows)
    case Nil
    then show ?case by simp
  next
    case (Cons row rows)
    from splitter_bounded[of "description row"] obtain chunks where
      c: "splitter (description row) = Inr chunks" "\<forall>c\<in>set chunks. c \<noteq> [] \<and> length c \<le> 1000"
      by blast
    from Cons.IH obtain ds where
      d: "docs rows = Inr ds" "\<forall>d\<in>set ds. page_content d \<noteq> [] \<and> length (page_content d) \<le> 1000"
      by blast
    let ?new = "map (\<lambda>chunk. \<lparr>page_content = chunk, metadata_recipe = recipe row\<rparr>) chunks"
    have "docs (row # rows) = Inr (?new @ ds)" by (simp add: c(1) d(1))
    moreover have "\<forall>d\<in>set (?new @ ds). page_content d \<noteq> [] \<and> length (page_content d) \<le> 1000"
      using c(2) d(2) by auto
    ultimately show ?case by blast
  qed
qed

theorem chunks_bounded_nonempty_witness:
  "splitter ''ab cd'' = Inr [''ab cd''] \<and> ''ab cd'' \<noteq> [] \<and> length ''ab cd'' \<le> 1000"
proof -
  from chunks_bounded_nonempty [of "''ab cd''" "[]"] obtain chunks where
    c: "splitter ''ab cd'' = Inr chunks" "\<forall>c\<in>set chunks. c \<noteq> [] \<and> length c \<le> 1000"
    by blast
  have e: "splitter ''ab cd'' = Inr [''ab cd'']" by code_simp
  with c(1) have "chunks = [''ab cd'']" by simp
  with c(2) have "''ab cd'' \<noteq> [] \<and> length ''ab cd'' \<le> 1000" by simp
  with e show ?thesis by simp
qed




text \<open>
  Claim C10. The empty description gives no chunk, and a recipe with the empty
  description adds no document.
\<close>

theorem empty_description_no_chunk:
  "splitter [] = Inr [] \<and>
   docs (\<lparr>recipe = r, description = []\<rparr> # rows) = docs rows"
proof -
  have "split_text_rec 1000 100 separators [] = Inr (stripped [([], 0)])"
    using separators_good by (intro split_text_rec_short) simp_all
  then have "splitter [] = Inr []"
    by (simp add: splitter_def split_text_def stripped_single)
  then show ?thesis by (simp split: sum.splits)
qed

end
